theory Spec2Isabelle
  imports Main
begin

section \<open>JavaScript values and array primitives\<close>

text \<open>
  The diff functions of \<^verbatim>\<open>public/js/fastdiff.js\<close> work on arrays whose elements are
  arbitrary JavaScript values. Two values behave in a way of their own in the code:
  \<^verbatim>\<open>undefined\<close> (it is what an out-of-range read returns, and what
  \<^verbatim>\<open>findFirstDifferenceIndex\<close> tests for) and \<^verbatim>\<open>NaN\<close> (the one value that the default
  comparator \<^verbatim>\<open>===\<close> does not relate to itself). An element is therefore \<open>Undefined\<close>,
  \<open>NaN\<close> or a proper value \<open>Elem v\<close>; proper values are taken up to \<^verbatim>\<open>===\<close>, which
  relates each of them to itself. A string is converted to the array of its characters,
  as \<^verbatim>\<open>Array.from\<close> and \<^verbatim>\<open>Array.prototype.slice.call\<close> do.
\<close>

datatype 'a elem = Undefined | NaN | Elem 'a

type_synonym 'a cmp = "'a elem \<Rightarrow> 'a elem \<Rightarrow> bool"

definition of_string :: "string \<Rightarrow> char elem list" where
  "of_string s = map Elem s"

text \<open>\<^verbatim>\<open>arr[i]\<close>: a read outside the array yields \<^verbatim>\<open>undefined\<close>.\<close>

definition js_nth :: "'a elem list \<Rightarrow> int \<Rightarrow> 'a elem" where
  "js_nth arr i = (if 0 \<le> i \<and> i < int (length arr) then arr ! nat i else Undefined)"

text \<open>
  The relative index of \<^verbatim>\<open>slice\<close> and \<^verbatim>\<open>splice\<close>: a negative index counts from the
  end, and the result is clamped to the array.
\<close>

definition rel_index :: "nat \<Rightarrow> int \<Rightarrow> nat" where
  "rel_index len i = nat (if i < 0 then max (int len + i) 0 else min i (int len))"

definition js_slice :: "'b list \<Rightarrow> int \<Rightarrow> int \<Rightarrow> 'b list" where
  "js_slice arr start fin =
     (let k = rel_index (length arr) start; final = rel_index (length arr) fin
      in take (final - k) (drop k arr))"

definition js_slice_from :: "'b list \<Rightarrow> int \<Rightarrow> 'b list" where
  "js_slice_from arr start = drop (rel_index (length arr) start) arr"

definition js_splice :: "'b list \<Rightarrow> int \<Rightarrow> int \<Rightarrow> 'b list \<Rightarrow> 'b list" where
  "js_splice arr start deleteCount items =
     (let k = rel_index (length arr) start;
          d = nat (min (max deleteCount 0) (int (length arr) - int k))
      in take k arr @ items @ drop (k + d) arr)"

section \<open>The boundary diff engine (\<^verbatim>\<open>fastDiff\<close>)\<close>

datatype atom = Equal | Insert | Delete

datatype 'a change =
    InsertChange int "'a elem list"
  | DeleteChange int int

record changeIndexes =
  firstIndex :: int
  lastIndexOld :: int
  lastIndexNew :: int

text \<open>The test of the scanning loop (line 58): the position counts as a difference.\<close>

definition differs :: "'a cmp \<Rightarrow> 'a elem \<Rightarrow> 'a elem \<Rightarrow> bool" where
  "differs cmp x y = (x = Undefined \<or> y = Undefined \<or> \<not> cmp x y)"

function ffdi_loop :: "'a elem list \<Rightarrow> 'a elem list \<Rightarrow> 'a cmp \<Rightarrow> nat \<Rightarrow> int" where
  "ffdi_loop arr1 arr2 cmp i =
     (if i < max (length arr1) (length arr2)
      then (if differs cmp (js_nth arr1 (int i)) (js_nth arr2 (int i)) then int i
            else ffdi_loop arr1 arr2 cmp (Suc i))
      else - 1)"
  by pat_completeness auto
termination
  by (relation "measure (\<lambda>(arr1, arr2, cmp, i). max (length arr1) (length arr2) - i)") auto

declare ffdi_loop.simps [simp del]

definition findFirstDifferenceIndex :: "'a elem list \<Rightarrow> 'a elem list \<Rightarrow> 'a cmp \<Rightarrow> int" where
  "findFirstDifferenceIndex arr1 arr2 cmp = ffdi_loop arr1 arr2 cmp 0"

definition cutAndReverse :: "'b list \<Rightarrow> int \<Rightarrow> 'b list" where
  "cutAndReverse arr howMany = rev (js_slice_from arr howMany)"

definition findChangeBoundaryIndexes ::
  "'a elem list \<Rightarrow> 'a elem list \<Rightarrow> 'a cmp \<Rightarrow> changeIndexes" where
  "findChangeBoundaryIndexes arr1 arr2 cmp =
     (let first = findFirstDifferenceIndex arr1 arr2 cmp
      in if first = - 1
         then \<lparr>firstIndex = - 1, lastIndexOld = - 1, lastIndexNew = - 1\<rparr>
         else
           (let oldArrayReversed = cutAndReverse arr1 first;
                newArrayReversed = cutAndReverse arr2 first;
                lastIndex = findFirstDifferenceIndex oldArrayReversed newArrayReversed cmp
            in \<lparr>firstIndex = first,
                lastIndexOld = int (length arr1) - lastIndex,
                lastIndexNew = int (length arr2) - lastIndex\<rparr>))"

definition changeIndexesToChanges :: "'a elem list \<Rightarrow> changeIndexes \<Rightarrow> 'a change list" where
  "changeIndexesToChanges newArray ci =
     (if lastIndexNew ci - firstIndex ci > 0
      then [InsertChange (firstIndex ci) (js_slice newArray (firstIndex ci) (lastIndexNew ci))]
      else [])
     @
     (if lastIndexOld ci - firstIndex ci > 0
      then [DeleteChange (firstIndex ci + (lastIndexNew ci - firstIndex ci))
              (lastIndexOld ci - firstIndex ci)]
      else [])"

definition changeIndexesToAtomicChanges :: "changeIndexes \<Rightarrow> nat \<Rightarrow> atom list" where
  "changeIndexesToAtomicChanges ci newLength =
     (if firstIndex ci = - 1 then replicate newLength Equal
      else
        (if firstIndex ci > 0 then replicate (nat (firstIndex ci)) Equal else [])
        @ (if lastIndexNew ci - firstIndex ci > 0
           then replicate (nat (lastIndexNew ci - firstIndex ci)) Insert else [])
        @ (if lastIndexOld ci - firstIndex ci > 0
           then replicate (nat (lastIndexOld ci - firstIndex ci)) Delete else [])
        @ (if lastIndexNew ci < int newLength
           then replicate (nat (int newLength - lastIndexNew ci)) Equal else []))"

text \<open>
  \<^verbatim>\<open>fastDiff\<close> returns the atomic stream or the change list according to its flag; the
  two results are the two sides of a sum.
\<close>

definition fastDiff ::
  "'a elem list \<Rightarrow> 'a elem list \<Rightarrow> 'a cmp \<Rightarrow> bool \<Rightarrow> atom list + 'a change list" where
  "fastDiff a b cmp atomicChanges =
     (let ci = findChangeBoundaryIndexes a b cmp
      in if atomicChanges then Inl (changeIndexesToAtomicChanges ci (length b))
         else Inr (changeIndexesToChanges b ci))"

section \<open>The patch compactor (\<^verbatim>\<open>diffToChanges\<close>)\<close>

text \<open>
  The closure variables \<^verbatim>\<open>changes\<close>, \<^verbatim>\<open>index\<close> and \<^verbatim>\<open>lastOperation\<close> are the state
  of the walk over the atomic stream.
\<close>

type_synonym 'a dtc_state = "'a change list \<times> int \<times> 'a change option"

fun pushLast :: "'a dtc_state \<Rightarrow> 'a dtc_state" where
  "pushLast (changes, i, Some lastOperation) = (changes @ [lastOperation], i, None)"
| "pushLast (changes, i, None) = (changes, i, None)"

fun dtc_step :: "'a elem list \<Rightarrow> 'a dtc_state \<Rightarrow> atom \<Rightarrow> 'a dtc_state" where
  "dtc_step output st Equal =
     (case pushLast st of (changes, i, lastOperation) \<Rightarrow> (changes, i + 1, lastOperation))"
| "dtc_step output (changes, i, Some (InsertChange j vs)) Insert =
     (changes, i + 1, Some (InsertChange j (vs @ [js_nth output i])))"
| "dtc_step output (changes, i, lastOperation) Insert =
     (case pushLast (changes, i, lastOperation) of
        (changes', i', _) \<Rightarrow> (changes', i' + 1, Some (InsertChange i [js_nth output i])))"
| "dtc_step output (changes, i, Some (DeleteChange j h)) Delete =
     (changes, i, Some (DeleteChange j (h + 1)))"
| "dtc_step output (changes, i, lastOperation) Delete =
     (case pushLast (changes, i, lastOperation) of
        (changes', i', _) \<Rightarrow> (changes', i', Some (DeleteChange i 1)))"

definition diffToChanges :: "atom list \<Rightarrow> 'a elem list \<Rightarrow> 'a change list" where
  "diffToChanges diff output =
     (case pushLast (foldl (dtc_step output) ([], 0, None) diff) of
        (changes, _, _) \<Rightarrow> changes)"

section \<open>Applying a patch (\<^verbatim>\<open>applyChanges\<close> of the client)\<close>

fun applyChange :: "'a elem list \<Rightarrow> 'a change \<Rightarrow> 'a elem list" where
  "applyChange input (InsertChange i vs) = js_splice input i 0 vs"
| "applyChange input (DeleteChange i h) = js_splice input i h []"

definition applyChanges :: "'a elem list \<Rightarrow> 'a change list \<Rightarrow> 'a elem list" where
  "applyChanges input changes = foldl applyChange input changes"

section \<open>The shortest-edit-script engine and the dispatcher (\<^verbatim>\<open>diff\<close>)\<close>

text \<open>
  The objects \<^verbatim>\<open>es\<close> (edit scripts) and \<^verbatim>\<open>fp\<close> (furthest points) are dictionaries
  keyed by the diagonal \<open>k\<close>, which may be negative. A missing key reads as
  \<^verbatim>\<open>undefined\<close>, here \<open>None\<close>.
\<close>

type_synonym ses_state = "(int \<rightharpoonup> atom list) \<times> (int \<rightharpoonup> int)"

text \<open>The \<^verbatim>\<open>while\<close> loop of \<^verbatim>\<open>snake\<close>: it pushes one \<^verbatim>\<open>'equal'\<close> per matching pair.\<close>

function slide ::
  "'a elem list \<Rightarrow> 'a elem list \<Rightarrow> 'a cmp \<Rightarrow> int \<Rightarrow> int \<Rightarrow> atom list \<Rightarrow> atom list \<times> int" where
  "slide a b cmp x y s =
     (if x < int (length a) \<and> y < int (length b) \<and> cmp (js_nth a x) (js_nth b y)
      then slide a b cmp (x + 1) (y + 1) (s @ [Equal])
      else (s, y))"
  by pat_completeness auto
termination
  by (relation "measure (\<lambda>(a, b, cmp, x, y, s). nat (int (length a) - x))") auto

declare slide.simps [simp del]

text \<open>
  \<^verbatim>\<open>snake(k)\<close> reads \<^verbatim>\<open>fp[k - 1]\<close> and \<^verbatim>\<open>fp[k + 1]\<close>, replaces \<^verbatim>\<open>es[k]\<close> by a copy of
  \<^verbatim>\<open>es[k + dir]\<close> when that one exists (and starts it empty when neither exists), pushes
  one token and slides. It returns \<open>y\<close>; the caller stores it in \<^verbatim>\<open>fp[k]\<close>.
\<close>

definition snake ::
  "'a elem list \<Rightarrow> 'a elem list \<Rightarrow> 'a cmp \<Rightarrow> atom \<Rightarrow> atom \<Rightarrow> int \<Rightarrow> ses_state
   \<Rightarrow> (int \<rightharpoonup> atom list) \<times> int" where
  "snake a b cmp ins del k st =
     (case st of (es, fp) \<Rightarrow>
        let y1 = (case fp (k - 1) of Some v \<Rightarrow> v | None \<Rightarrow> - 1) + 1;
            y2 = (case fp (k + 1) of Some v \<Rightarrow> v | None \<Rightarrow> - 1);
            dir = (if y1 > y2 then - 1 else 1);
            s0 = (case es (k + dir) of Some s \<Rightarrow> s
                  | None \<Rightarrow> (case es k of Some s \<Rightarrow> s | None \<Rightarrow> []));
            s1 = s0 @ [if y1 > y2 then ins else del];
            y = max y1 y2;
            x = y - k
        in case slide a b cmp x y s1 of (s2, y') \<Rightarrow> (es(k \<mapsto> s2), y'))"

definition snake_step ::
  "'a elem list \<Rightarrow> 'a elem list \<Rightarrow> 'a cmp \<Rightarrow> atom \<Rightarrow> atom \<Rightarrow> int \<Rightarrow> ses_state \<Rightarrow> ses_state" where
  "snake_step a b cmp ins del k st =
     (case snake a b cmp ins del k st of (es', y) \<Rightarrow> (es', (snd st)(k \<mapsto> y)))"

text \<open>\<^verbatim>\<open>for (k = -p; k < delta; k++) fp[k] = snake(k)\<close>\<close>

function up_loop ::
  "'a elem list \<Rightarrow> 'a elem list \<Rightarrow> 'a cmp \<Rightarrow> atom \<Rightarrow> atom \<Rightarrow> int \<Rightarrow> int \<Rightarrow> ses_state
   \<Rightarrow> ses_state" where
  "up_loop a b cmp ins del delta k st =
     (if k < delta then up_loop a b cmp ins del delta (k + 1) (snake_step a b cmp ins del k st)
      else st)"
  by pat_completeness auto
termination
  by (relation "measure (\<lambda>(a, b, cmp, ins, del, delta, k, st). nat (delta - k))") auto

declare up_loop.simps [simp del]

text \<open>\<^verbatim>\<open>for (k = delta + p; k > delta; k--) fp[k] = snake(k)\<close>\<close>

function down_loop ::
  "'a elem list \<Rightarrow> 'a elem list \<Rightarrow> 'a cmp \<Rightarrow> atom \<Rightarrow> atom \<Rightarrow> int \<Rightarrow> int \<Rightarrow> ses_state
   \<Rightarrow> ses_state" where
  "down_loop a b cmp ins del delta k st =
     (if k > delta then down_loop a b cmp ins del delta (k - 1) (snake_step a b cmp ins del k st)
      else st)"
  by pat_completeness auto
termination
  by (relation "measure (\<lambda>(a, b, cmp, ins, del, delta, k, st). nat (k - delta))") auto

declare down_loop.simps [simp del]

text \<open>One pass of the \<^verbatim>\<open>do\<close> body for the current \<open>p\<close>.\<close>

definition ses_round ::
  "'a elem list \<Rightarrow> 'a elem list \<Rightarrow> 'a cmp \<Rightarrow> atom \<Rightarrow> atom \<Rightarrow> int \<Rightarrow> ses_state \<Rightarrow> ses_state" where
  "ses_round a b cmp ins del p st =
     (let delta = int (length b) - int (length a);
          st1 = up_loop a b cmp ins del delta (- p) st;
          st2 = down_loop a b cmp ins del delta (delta + p) st1
      in snake_step a b cmp ins del delta st2)"

text \<open>
  The \<^verbatim>\<open>do ... while (fp[delta] !== n)\<close> loop has no bound of its own, so it is a partial
  function: \<open>None\<close> stands for a run that does not return. On exit it yields
  \<^verbatim>\<open>es[delta]\<close>.
\<close>

partial_function (option) ses_loop ::
  "'a elem list \<Rightarrow> 'a elem list \<Rightarrow> 'a cmp \<Rightarrow> atom \<Rightarrow> atom \<Rightarrow> int \<Rightarrow> ses_state
   \<Rightarrow> atom list option" where
  "ses_loop a b cmp ins del p st =
     (let st' = ses_round a b cmp ins del p st
      in if snd st' (int (length b) - int (length a)) \<noteq> Some (int (length b))
         then ses_loop a b cmp ins del (p + 1) st'
         else fst st' (int (length b) - int (length a)))"

declare ses_loop.simps [code]

text \<open>
  The edit-script search of \<^verbatim>\<open>diff\<close> after the swap: \<open>a\<close> is the shorter sequence, and
  \<open>ins\<close>, \<open>del\<close> are the tokens \<^verbatim>\<open>_insert\<close>, \<^verbatim>\<open>_delete\<close>. The result is \<^verbatim>\<open>es[delta]\<close>
  in full, before \<^verbatim>\<open>slice(1)\<close>.
\<close>

definition ses_search ::
  "'a elem list \<Rightarrow> 'a elem list \<Rightarrow> 'a cmp \<Rightarrow> atom \<Rightarrow> atom \<Rightarrow> atom list option" where
  "ses_search a b cmp ins del = ses_loop a b cmp ins del 0 (Map.empty, Map.empty)"

text \<open>
  The default comparator \<^verbatim>\<open>(a, b) => a === b\<close>. Strict equality holds of two equal
  values, except of \<^verbatim>\<open>NaN\<close>, which \<^verbatim>\<open>===\<close> rejects against every value, itself
  included.
\<close>

definition strict_eq :: "'a cmp" where
  "strict_eq x y = (x = y \<and> x \<noteq> NaN)"

text \<open>
  \<^verbatim>\<open>diff(a, b, cmp)\<close>; the comparator is optional and defaults to strict equality.
\<close>

definition diff ::
  "'a elem list \<Rightarrow> 'a elem list \<Rightarrow> 'a cmp option \<Rightarrow> atom list option" where
  "diff a b cmp_opt =
     (let cmp = (case cmp_opt of Some c \<Rightarrow> c | None \<Rightarrow> strict_eq);
          aLength = length a;
          bLength = length b
      in if aLength > 200 \<or> bLength > 200 \<or> aLength + bLength > 300
         then (case fastDiff a b cmp True of Inl stream \<Rightarrow> Some stream | Inr _ \<Rightarrow> None)
         else if bLength < aLength
         then map_option (drop 1) (ses_search b a cmp Delete Insert)
         else map_option (drop 1) (ses_search a b cmp Insert Delete))"

section \<open>The synchronization loop of the client (\<^verbatim>\<open>applyLocalChanges\<close>)\<close>

text \<open>
  The closure variables \<^verbatim>\<open>syncValue\<close> (the shadow copy) and \<^verbatim>\<open>keypressed\<close> are the
  state of the loop; \<open>emitted\<close> records the \<^verbatim>\<open>content_change\<close> events sent on the socket,
  each with its document id and its patch. The live buffer of the editor is an input.
\<close>

record client =
  syncValue :: "char elem list"
  keypressed :: bool
  emitted :: "(string \<times> char change list) list"

text \<open>
  \<^verbatim>\<open>arr.join('')\<close>: an \<^verbatim>\<open>undefined\<close> element contributes the empty string, and
  \<^verbatim>\<open>NaN\<close> its name.
\<close>

definition join :: "char elem list \<Rightarrow> string" where
  "join arr = concat (map (\<lambda>e. case e of Undefined \<Rightarrow> [] | NaN \<Rightarrow> ''NaN'' | Elem c \<Rightarrow> [c]) arr)"

definition getChanges :: "'a elem list \<Rightarrow> 'a elem list \<Rightarrow> 'a change list option" where
  "getChanges input output = map_option (\<lambda>d. diffToChanges d output) (diff input output None)"

text \<open>
  The body of \<^verbatim>\<open>applyLocalChanges\<close> is written in two parts. The second part is what
  the function does once the patch \<^verbatim>\<open>changes\<close> is computed, the step that applies,
  verifies and commits: \<^verbatim>\<open>applyChanges(input, changes)\<close> on the scratch copy \<^verbatim>\<open>input\<close>
  of the shadow copy, the test \<^verbatim>\<open>output.join('') === input.join('')\<close>, the emission and the
  assignment \<^verbatim>\<open>syncValue = input\<close> under that test, and \<^verbatim>\<open>keypressed = false\<close>.
\<close>

definition verifyThenCommit ::
  "string \<Rightarrow> char elem list \<Rightarrow> char change list \<Rightarrow> client \<Rightarrow> client" where
  "verifyThenCommit documentId output changes cl =
     (let input = applyChanges (syncValue cl) changes;
          cl' = (if join output = join input
                 then cl\<lparr>emitted := emitted cl @ [(documentId, changes)],
                         syncValue := input\<rparr>
                 else cl)
      in cl'\<lparr>keypressed := False\<rparr>)"

text \<open>
  The first part: the test of the pending flag, the snapshot \<^verbatim>\<open>output\<close> of the live
  buffer, and the call \<^verbatim>\<open>getChanges(input, output)\<close>. The function returns when that call
  does.
\<close>

definition applyLocalChanges :: "string \<Rightarrow> string \<Rightarrow> client \<Rightarrow> client option" where
  "applyLocalChanges documentId currentData cl =
     (if keypressed cl
      then
        (let input = syncValue cl;
             output = of_string currentData
         in case getChanges input output of
              None \<Rightarrow> None
            | Some changes \<Rightarrow> Some (verifyThenCommit documentId output changes cl))
      else Some cl)"

section \<open>Edit scripts and the invariants of the search\<close>

text \<open>
  The vocabulary of the proofs: what an edit script is, and what holds of the state of
  the compactor and of the search while they run.
\<close>

text \<open>
  \<open>valid_script cmp ins s a b\<close>: the token list \<open>s\<close> is an edit script from \<open>a\<close> to
  \<open>b\<close>. An \<open>Equal\<close> token consumes one element of each sequence, and the comparator
  accepts the pair; the token \<open>ins\<close> consumes one element of \<open>b\<close>; the remaining token
  consumes one element of \<open>a\<close>; at the end both sequences are used up. The token \<open>ins\<close>
  is a parameter because \<^verbatim>\<open>diff\<close> exchanges the two tokens when it swaps its inputs.
\<close>

fun valid_script :: "'a cmp \<Rightarrow> atom \<Rightarrow> atom list \<Rightarrow> 'a elem list \<Rightarrow> 'a elem list \<Rightarrow> bool" where
  "valid_script cmp ins [] a b = (a = [] \<and> b = [])"
| "valid_script cmp ins (t # s) a b =
     (if t = Equal
      then (case (a, b) of (x # a', y # b') \<Rightarrow> cmp x y \<and> valid_script cmp ins s a' b'
            | _ \<Rightarrow> False)
      else if t = ins
      then (case b of y # b' \<Rightarrow> valid_script cmp ins s a b' | [] \<Rightarrow> False)
      else (case a of x # a' \<Rightarrow> valid_script cmp ins s a' b | [] \<Rightarrow> False))"

text \<open>The walk of \<open>diffToChanges\<close> from an arbitrary state.\<close>

definition dtc_run :: "'a elem list \<Rightarrow> 'a dtc_state \<Rightarrow> atom list \<Rightarrow> 'a change list" where
  "dtc_run output st s = fst (pushLast (foldl (dtc_step output) st s))"

text \<open>
  What the walk has achieved at index \<open>i\<close> of the new sequence \<open>b\<close>, when \<open>ar\<close> is the
  part of the old sequence that the rest of the script still has to consume.
\<close>

fun dtc_inv :: "'a elem list \<Rightarrow> 'a elem list \<Rightarrow> 'a elem list \<Rightarrow> nat \<Rightarrow> 'a dtc_state \<Rightarrow> bool" where
  "dtc_inv xs b ar i (cs, i', None) = (i' = int i \<and> applyChanges xs cs = take i b @ ar)"
| "dtc_inv xs b ar i (cs, i', Some (InsertChange j vs)) =
     (i' = int i \<and> (\<exists>j'. j = int j' \<and> j' \<le> i \<and> vs = take (i - j') (drop j' b)
        \<and> applyChanges xs cs = take j' b @ ar))"
| "dtc_inv xs b ar i (cs, i', Some (DeleteChange j h)) =
     (i' = int i \<and> j = int i \<and>
      (\<exists>ds. int (length ds) = h \<and> applyChanges xs cs = take i b @ ds @ ar))"

text \<open>
  \<open>good a b cmp ins es k y\<close>: the point \<open>(y - k, y)\<close> of diagonal \<open>k\<close> lies in the edit
  graph, and \<open>es k\<close> is the sentinel followed by an edit script from the first \<open>y - k\<close>
  elements of \<open>a\<close> to the first \<open>y\<close> elements of \<open>b\<close>.
\<close>

definition good ::
  "'a elem list \<Rightarrow> 'a elem list \<Rightarrow> 'a cmp \<Rightarrow> atom \<Rightarrow> (int \<rightharpoonup> atom list) \<Rightarrow> int \<Rightarrow> int \<Rightarrow> bool" where
  "good a b cmp ins es k y \<longleftrightarrow>
     0 \<le> y - k \<and> y - k \<le> int (length a) \<and> 0 \<le> y \<and> y \<le> int (length b)
     \<and> (\<exists>s. es k = Some (ins # s)
            \<and> valid_script cmp ins s (take (nat (y - k)) a) (take (nat y) b))"

text \<open>
  The diagonals that hold a furthest point when round \<open>p\<close> starts: those of the round
  before.
\<close>

definition Old :: "int \<Rightarrow> int \<Rightarrow> int set" where
  "Old delta p = (if p = 0 then {} else {1 - p .. delta + p - 1})"

text \<open>
  \<open>base_inv a b cmp ins D S st\<close>: the furthest points are defined exactly on the
  diagonals \<open>D\<close>, a script is stored only where a point is, every point is \<open>good\<close>,
  and the points of the diagonals \<open>S\<close> lie strictly inside the edit graph.
\<close>

definition base_inv ::
  "'a elem list \<Rightarrow> 'a elem list \<Rightarrow> 'a cmp \<Rightarrow> atom \<Rightarrow> int set \<Rightarrow> int set \<Rightarrow> ses_state \<Rightarrow> bool" where
  "base_inv a b cmp ins D S st \<longleftrightarrow>
     (\<forall>j. (snd st j \<noteq> None) = (j \<in> D))
     \<and> (\<forall>j. snd st j = None \<longrightarrow> fst st j = None)
     \<and> (\<forall>j y. snd st j = Some y \<longrightarrow> good a b cmp ins (fst st) j y)
     \<and> (\<forall>j y. snd st j = Some y \<longrightarrow> j \<in> S \<longrightarrow> y - j < int (length a) \<and> y < int (length b))"

text \<open>
  Neighbouring furthest points: from diagonal \<open>lo\<close> up to \<open>hi\<close> the coordinate \<open>x\<close> of
  the points does not decrease (\<open>chain_up\<close>); from \<open>hi\<close> down to \<open>lo\<close> their coordinate
  \<open>y\<close> does not decrease (\<open>chain_down\<close>).
\<close>

definition chain_up :: "(int \<rightharpoonup> int) \<Rightarrow> int \<Rightarrow> int \<Rightarrow> bool" where
  "chain_up fp lo hi \<longleftrightarrow>
     (\<forall>j y y'. lo \<le> j \<and> j < hi \<longrightarrow> fp j = Some y \<longrightarrow> fp (j + 1) = Some y' \<longrightarrow> y + 1 \<le> y')"

definition chain_down :: "(int \<rightharpoonup> int) \<Rightarrow> int \<Rightarrow> int \<Rightarrow> bool" where
  "chain_down fp lo hi \<longleftrightarrow>
     (\<forall>j y y'. lo \<le> j \<and> j < hi \<longrightarrow> fp j = Some y \<longrightarrow> fp (j + 1) = Some y' \<longrightarrow> y' \<le> y)"

text \<open>
  The invariants of round \<open>p\<close>: of the ascending loop before it handles diagonal \<open>k\<close>,
  of the descending loop before it handles diagonal \<open>k\<close>, and of the state after the
  round.
\<close>

definition up_inv ::
  "'a elem list \<Rightarrow> 'a elem list \<Rightarrow> 'a cmp \<Rightarrow> atom \<Rightarrow> int \<Rightarrow> int \<Rightarrow> int \<Rightarrow> ses_state \<Rightarrow> bool" where
  "up_inv a b cmp ins delta p k st \<longleftrightarrow>
     base_inv a b cmp ins ({- p..<k} \<union> Old delta p) {k..} st \<and> chain_up (snd st) (- p) (k - 1)"

definition down_inv ::
  "'a elem list \<Rightarrow> 'a elem list \<Rightarrow> 'a cmp \<Rightarrow> atom \<Rightarrow> int \<Rightarrow> int \<Rightarrow> int \<Rightarrow> ses_state \<Rightarrow> bool" where
  "down_inv a b cmp ins delta p k st \<longleftrightarrow>
     base_inv a b cmp ins ({- p..<delta} \<union> {k<..delta + p} \<union> Old delta p) {delta..k} st
     \<and> chain_up (snd st) (- p) (delta - 1) \<and> chain_down (snd st) (k + 1) (delta + p)"

definition after_inv ::
  "'a elem list \<Rightarrow> 'a elem list \<Rightarrow> 'a cmp \<Rightarrow> atom \<Rightarrow> int \<Rightarrow> int \<Rightarrow> ses_state \<Rightarrow> bool" where
  "after_inv a b cmp ins delta p st \<longleftrightarrow>
     base_inv a b cmp ins {- p..delta + p} {} st
     \<and> chain_up (snd st) (- p) delta \<and> chain_down (snd st) delta (delta + p)"

text \<open>What one call of \<open>snake_step\<close> at diagonal \<open>k\<close> yields, besides the invariant.\<close>

definition step_result ::
  "'a elem list \<Rightarrow> 'a elem list \<Rightarrow> 'a cmp \<Rightarrow> atom \<Rightarrow> atom \<Rightarrow> int \<Rightarrow> ses_state \<Rightarrow> ses_state \<Rightarrow> bool" where
  "step_result a b cmp ins del k st st' \<longleftrightarrow>
     (\<exists>s y e.
        st' = ((fst st)(k \<mapsto> ins # s @ replicate e Equal), (snd st)(k \<mapsto> y))
        \<and> (\<forall>l. snd st (k - 1) = Some l \<longrightarrow> l + 1 \<le> y)
        \<and> (\<forall>r. snd st (k + 1) = Some r \<longrightarrow> r \<le> y)
        \<and> \<not> (y - k < int (length a) \<and> y < int (length b) \<and> cmp (js_nth a (y - k)) (js_nth b y))
        \<and> ((snd st (k - 1) = None \<and> snd st (k + 1) = None \<and> k = 0 \<and> s = [])
           \<or> (\<exists>s0. fst st (k - 1) = Some (ins # s0) \<and> s = s0 @ [ins])
           \<or> (\<exists>s0. fst st (k + 1) = Some (ins # s0) \<and> s = s0 @ [del])))"

text \<open>The test of the dispatcher.\<close>

definition big :: "'a list \<Rightarrow> 'b list \<Rightarrow> bool" where
  "big a b \<longleftrightarrow> length a > 200 \<or> length b > 200 \<or> length a + length b > 300"

text \<open>A patch operation that changes something.\<close>

fun nontrivial :: "'a change \<Rightarrow> bool" where
  "nontrivial (InsertChange i vs) = (vs \<noteq> [])"
| "nontrivial (DeleteChange i h) = (1 \<le> h)"

text \<open>The invariant of the walk of \<open>diffToChanges\<close> for non-trivial operations.\<close>

definition dtc_nontrivial :: "'a dtc_state \<Rightarrow> bool" where
  "dtc_nontrivial st \<longleftrightarrow>
     list_all nontrivial (fst st)
     \<and> (case snd (snd st) of None \<Rightarrow> True | Some c \<Rightarrow> nontrivial c)"

text \<open>
  The tokens of a script that consume an element of the old sequence only (all tokens
  other than \<open>Equal\<close> and \<open>ins\<close>), and the tokens other than \<open>Equal\<close>: the length of
  the edit script proper.
\<close>

definition dels :: "atom \<Rightarrow> atom list \<Rightarrow> nat" where
  "dels ins s = length (filter (\<lambda>t. t \<noteq> Equal \<and> t \<noteq> ins) s)"

definition edits :: "atom list \<Rightarrow> nat" where
  "edits s = length (filter (\<lambda>t. t \<noteq> Equal) s)"

text \<open>
  \<open>opt_at a b cmp ins delta fp q j\<close>: every path of the edit graph from the origin to a
  point of diagonal \<open>j\<close> whose cost (its vertical steps, plus the distance of \<open>j\<close> beyond
  the target diagonal) is at most \<open>q\<close> ends no further than the furthest point \<open>fp j\<close>.
  \<open>ext_inv\<close>: this holds with \<open>q = p\<close> on the diagonals \<open>U\<close> and with \<open>q = p - 1\<close> on the
  others, and the stored scripts have a cost within the same bounds.
\<close>

definition opt_at ::
  "'a elem list \<Rightarrow> 'a elem list \<Rightarrow> 'a cmp \<Rightarrow> atom \<Rightarrow> int \<Rightarrow> (int \<rightharpoonup> int) \<Rightarrow> int \<Rightarrow> int \<Rightarrow> bool" where
  "opt_at a b cmp ins delta fp q j \<longleftrightarrow>
     (\<forall>s x y. x \<le> length a \<and> y \<le> length b \<and> int y - int x = j
        \<and> valid_script cmp ins s (take x a) (take y b)
        \<and> int (dels ins s) + max 0 (j - delta) \<le> q
        \<longrightarrow> (\<exists>v. fp j = Some v \<and> int y \<le> v))"

definition ext_inv ::
  "'a elem list \<Rightarrow> 'a elem list \<Rightarrow> 'a cmp \<Rightarrow> atom \<Rightarrow> int \<Rightarrow> int \<Rightarrow> int set \<Rightarrow> ses_state \<Rightarrow> bool" where
  "ext_inv a b cmp ins delta p U st \<longleftrightarrow>
     (\<forall>j. opt_at a b cmp ins delta (snd st) (if j \<in> U then p else p - 1) j)
     \<and> (\<forall>j s. fst st j = Some (ins # s)
          \<longrightarrow> int (dels ins s) + max 0 (j - delta) \<le> (if j \<in> U then p else p - 1))"

text \<open>
  The spec speaks of applying an edit script, token by token, to the old sequence. The
  source has no function that does this to an atomic stream (it compacts the stream and
  applies the patch), so the notion is written out after the spec's words: \<open>equal\<close>
  keeps the next old element, \<open>insert\<close> emits the next new element, \<open>delete\<close> drops
  the next old element, and both sequences must be used up. An \<open>equal\<close> token also
  steps over one element of the new sequence, as \<open>diffToChanges\<close> does with its index,
  and it stands for a pair of elements that are strictly equal, as in the search, which
  pushes \<open>equal\<close> only for a pair that the comparator accepts.
\<close>

fun apply_script :: "atom list \<Rightarrow> 'a elem list \<Rightarrow> 'a elem list \<Rightarrow> 'a elem list option" where
  "apply_script [] [] [] = Some []"
| "apply_script (Equal # s) (x # a) (y # b) =
     (if strict_eq x y then map_option ((#) x) (apply_script s a b) else None)"
| "apply_script (Insert # s) a (y # b) = map_option ((#) y) (apply_script s a b)"
| "apply_script (Delete # s) (x # a) b = apply_script s a b"
| "apply_script _ _ _ = None"

section \<open>Array primitives\<close>

lemma js_nth_nat: "js_nth arr (int i) = (if i < length arr then arr ! i else Undefined)"
  by (simp add: js_nth_def)

lemma rel_index_nat [simp]: "rel_index len (int i) = min i len"
  by (simp add: rel_index_def)

lemma js_splice_insert:
  "js_splice (xs @ ys) (int (length xs)) 0 vs = xs @ vs @ ys"
  by (simp add: js_splice_def)

lemma js_splice_delete:
  "js_splice (xs @ ds @ ys) (int (length xs)) (int (length ds)) [] = xs @ ys"
  by (simp add: js_splice_def)

lemma js_slice_nat: "js_slice arr (int i) (int j) = take (j - i) (drop i arr)"
  by (simp add: js_slice_def Let_def min_def)

lemma js_slice_from_nat: "js_slice_from arr (int i) = drop i arr"
  by (simp add: js_slice_from_def min_def)

section \<open>Edit scripts\<close>

lemma valid_script_Equal:
  "valid_script cmp ins (Equal # s) a b =
     (\<exists>x a' y b'. a = x # a' \<and> b = y # b' \<and> cmp x y \<and> valid_script cmp ins s a' b')"
  by (auto split: list.splits)

lemma valid_script_ins:
  "ins \<noteq> Equal \<Longrightarrow> valid_script cmp ins (ins # s) a b =
     (\<exists>y b'. b = y # b' \<and> valid_script cmp ins s a b')"
  by (auto split: list.splits)

lemma valid_script_del:
  "t \<noteq> Equal \<Longrightarrow> t \<noteq> ins \<Longrightarrow> valid_script cmp ins (t # s) a b =
     (\<exists>x a'. a = x # a' \<and> valid_script cmp ins s a' b)"
  by (auto split: list.splits)

lemma valid_script_append:
  "valid_script cmp ins s a b \<Longrightarrow> valid_script cmp ins s' a' b'
   \<Longrightarrow> valid_script cmp ins (s @ s') (a @ a') (b @ b')"
proof (induction s arbitrary: a b)
  case Nil
  then show ?case by simp
next
  case (Cons t s)
  consider "t = Equal" | "t \<noteq> Equal" "t = ins" | "t \<noteq> Equal" "t \<noteq> ins" by blast
  then show ?case
  proof cases
    case 1
    with Cons.prems obtain x a0 y b0 where
      "a = x # a0" "b = y # b0" "cmp x y" "valid_script cmp ins s a0 b0"
      by (auto simp: valid_script_Equal simp del: valid_script.simps)
    with Cons.IH [of a0 b0] Cons.prems(2) 1 show ?thesis
      by (simp add: valid_script_Equal del: valid_script.simps)
  next
    case 2
    with Cons.prems obtain y b0 where "b = y # b0" "valid_script cmp ins s a b0"
      by (auto simp: valid_script_ins simp del: valid_script.simps)
    with Cons.IH [of a b0] Cons.prems(2) 2 show ?thesis
      by (simp add: valid_script_ins del: valid_script.simps)
  next
    case 3
    with Cons.prems obtain x a0 where "a = x # a0" "valid_script cmp ins s a0 b"
      by (auto simp: valid_script_del simp del: valid_script.simps)
    with Cons.IH [of a0 b] Cons.prems(2) 3 show ?thesis
      by (simp add: valid_script_del del: valid_script.simps)
  qed
qed

lemma valid_script_swap:
  "valid_script cmp Delete s b a = valid_script (\<lambda>x y. cmp y x) Insert s a b"
proof (induction s arbitrary: a b)
  case Nil
  show ?case by auto
next
  case (Cons t s)
  show ?case
  proof (cases t)
    case Equal
    then show ?thesis
      by (simp add: valid_script_Equal Cons.IH del: valid_script.simps) blast
  next
    case Insert
    then show ?thesis
      by (simp add: valid_script_ins valid_script_del Cons.IH del: valid_script.simps)
  next
    case Delete
    then show ?thesis
      by (simp add: valid_script_ins valid_script_del Cons.IH del: valid_script.simps)
  qed
qed

lemma valid_equal_run:
  "length a = length b \<Longrightarrow> (\<forall>i < length a. cmp (a ! i) (b ! i))
   \<Longrightarrow> valid_script cmp ins (replicate (length a) Equal) a b"
proof (induction a arbitrary: b)
  case Nil
  then show ?case by simp
next
  case (Cons x a)
  then obtain y b' where b: "b = y # b'" by (cases b) auto
  from Cons.prems b have "cmp x y" by auto
  moreover have "valid_script cmp ins (replicate (length a) Equal) a b'"
    using Cons.prems b by (intro Cons.IH) auto
  ultimately show ?case using b by simp
qed

lemma valid_insert_run:
  "ins \<noteq> Equal \<Longrightarrow> valid_script cmp ins (replicate (length b) ins) [] b"
  by (induction b) auto

lemma valid_delete_run:
  "del \<noteq> Equal \<Longrightarrow> del \<noteq> ins \<Longrightarrow> valid_script cmp ins (replicate (length a) del) a []"
  by (induction a) auto

lemma valid_script_counts:
  "valid_script cmp ins s a b \<Longrightarrow>
   length (filter (\<lambda>t. t = Equal \<or> t = ins) s) = length b
   \<and> length (filter (\<lambda>t. t = Equal \<or> t \<noteq> ins) s) = length a"
proof (induction s arbitrary: a b)
  case Nil
  then show ?case by simp
next
  case (Cons t s)
  consider "t = Equal" | "t \<noteq> Equal" "t = ins" | "t \<noteq> Equal" "t \<noteq> ins" by blast
  then show ?case
  proof cases
    case 1
    with Cons.prems obtain x a0 y b0 where
      "a = x # a0" "b = y # b0" "valid_script cmp ins s a0 b0"
      by (auto simp: valid_script_Equal simp del: valid_script.simps)
    with Cons.IH [of a0 b0] 1 show ?thesis by simp
  next
    case 2
    with Cons.prems obtain y b0 where "b = y # b0" "valid_script cmp ins s a b0"
      by (auto simp: valid_script_ins simp del: valid_script.simps)
    with Cons.IH [of a b0] 2 show ?thesis by simp
  next
    case 3
    with Cons.prems obtain x a0 where "a = x # a0" "valid_script cmp ins s a0 b"
      by (auto simp: valid_script_del simp del: valid_script.simps)
    with Cons.IH [of a0 b] 3 show ?thesis by simp
  qed
qed

section \<open>Compaction followed by application\<close>

lemma diffToChanges_run: "diffToChanges s output = dtc_run output ([], 0, None) s"
  by (simp add: diffToChanges_def dtc_run_def split: prod.splits)

lemma dtc_run_Nil: "dtc_run output st [] = fst (pushLast st)"
  by (simp add: dtc_run_def)

lemma dtc_run_Cons: "dtc_run output st (t # s) = dtc_run output (dtc_step output st t) s"
  by (simp add: dtc_run_def)

lemma applyChanges_snoc: "applyChanges xs (cs @ [c]) = applyChange (applyChanges xs cs) c"
  by (simp add: applyChanges_def)

lemma take_take_drop: "j \<le> i \<Longrightarrow> take j b @ take (i - j) (drop j b) = take i b"
  by (metis le_add_diff_inverse take_add)

lemma dtc_inv_pushLast:
  assumes "dtc_inv xs b ar i st" "i \<le> length b"
  shows "dtc_inv xs b ar i (pushLast st) \<and> snd (snd (pushLast st)) = None"
proof -
  obtain cs i' l where st: "st = (cs, i', l)" by (cases st)
  show ?thesis
  proof (cases l)
    case None
    with assms st show ?thesis by simp
  next
    case (Some c)
    show ?thesis
    proof (cases c)
      case (InsertChange j vs)
      with assms st Some obtain j' where j': "j = int j'" "j' \<le> i"
        "vs = take (i - j') (drop j' b)" "applyChanges xs cs = take j' b @ ar" "i' = int i"
        by auto
      have "length (take j' b) = j'" using j'(2) assms(2) by simp
      then have "js_splice (take j' b @ ar) (int j') 0 vs = take j' b @ vs @ ar"
        using js_splice_insert [of "take j' b" ar vs] by simp
      then show ?thesis
        using st Some InsertChange j' by (simp add: applyChanges_snoc take_take_drop)
    next
      case (DeleteChange j h)
      with assms st Some obtain ds where ds: "i' = int i" "j = int i" "int (length ds) = h"
        "applyChanges xs cs = take i b @ ds @ ar"
        by auto
      have "length (take i b) = i" using assms(2) by simp
      then have "js_splice (take i b @ ds @ ar) (int i) (int (length ds)) [] = take i b @ ar"
        using js_splice_delete [of "take i b" ds ar] by simp
      then show ?thesis
        using st Some DeleteChange ds by (auto simp: applyChanges_snoc)
    qed
  qed
qed

lemma dtc_run_correct:
  assumes "valid_script strict_eq Insert s ar (drop i b)" "dtc_inv xs b ar i st" "i \<le> length b"
  shows "applyChanges xs (dtc_run b st s) = b"
  using assms
proof (induction s arbitrary: ar i st)
  case Nil
  then have ar: "ar = []" and i: "i = length b" by auto
  obtain cs i' l where p: "pushLast st = (cs, i', l)" by (cases "pushLast st")
  from dtc_inv_pushLast [OF Nil.prems(2,3)] p have "l = None" "dtc_inv xs b ar i (cs, i', None)"
    by auto
  then show ?case using p ar i by (simp add: dtc_run_Nil)
next
  case (Cons t s)
  obtain cs i' l where p: "pushLast st = (cs, i', l)" by (cases "pushLast st")
  from dtc_inv_pushLast [OF Cons.prems(2,3)] p
  have l: "l = None" and pinv: "dtc_inv xs b ar i (cs, i', None)" by auto
  then have i': "i' = int i" and app: "applyChanges xs cs = take i b @ ar" by auto
  show ?case
  proof (cases t)
    case Equal
    with Cons.prems(1) obtain x ar' y b' where
      e0: "ar = x # ar'" "drop i b = y # b'" "strict_eq x y"
        "valid_script strict_eq Insert s ar' b'"
      by (auto simp: valid_script_Equal simp del: valid_script.simps)
    then have e: "ar = x # ar'" "drop i b = y # b'" "x = y"
      "valid_script strict_eq Insert s ar' b'"
      by (simp_all add: strict_eq_def)
    from e(2) have lt: "i < length b" by (cases "i < length b") auto
    with e(2) have y: "y = b ! i" and b': "b' = drop (Suc i) b"
      by (simp_all add: Cons_nth_drop_Suc [symmetric])
    have "take (Suc i) b @ ar' = take i b @ ar"
      using lt e(1,3) y by (simp add: take_Suc_conv_app_nth)
    then have "dtc_inv xs b ar' (Suc i) (dtc_step b st t)"
      using Equal p l i' app by simp
    from Cons.IH [OF _ this] e(4) b' lt show ?thesis
      by (simp add: dtc_run_Cons)
  next
    case Insert
    with Cons.prems(1) obtain y b' where
      e: "drop i b = y # b'" "valid_script strict_eq Insert s ar b'"
      by (auto simp: valid_script_ins simp del: valid_script.simps)
    from e(1) have lt: "i < length b" by (cases "i < length b") auto
    with e(1) have y: "y = b ! i" and b': "b' = drop (Suc i) b"
      by (simp_all add: Cons_nth_drop_Suc [symmetric])
    have nth: "js_nth b (int i) = b ! i" using lt by (simp add: js_nth_nat)
    have "dtc_inv xs b ar (Suc i) (dtc_step b st t)"
    proof (cases st)
      case (fields cs0 i0 l0)
      show ?thesis
      proof (cases l0)
        case None
        with fields p have "cs0 = cs" "i0 = i'" by auto
        with fields None Insert i' app nth lt show ?thesis
          by (auto simp: take_Suc_conv_app_nth intro!: exI [of _ i])
      next
        case (Some c)
        show ?thesis
        proof (cases c)
          case (InsertChange j vs)
          with Cons.prems(2) fields Some obtain j' where j': "i0 = int i" "j = int j'" "j' \<le> i"
            "vs = take (i - j') (drop j' b)" "applyChanges xs cs0 = take j' b @ ar"
            by auto
          have "take (Suc i - j') (drop j' b) = vs @ [b ! i]"
            using j'(3,4) lt by (simp add: Suc_diff_le take_Suc_conv_app_nth)
          with fields Some InsertChange Insert j' nth show ?thesis
            by (auto intro!: exI [of _ j'])
        next
          case (DeleteChange j h)
          with fields Some p have "i0 = i'" by auto
          with fields Some DeleteChange Insert p l i' app nth lt show ?thesis
            by (auto simp: take_Suc_conv_app_nth intro!: exI [of _ i])
        qed
      qed
    qed
    from Cons.IH [OF _ this] e(2) b' lt show ?thesis
      by (simp add: dtc_run_Cons)
  next
    case Delete
    with Cons.prems(1) obtain x ar' where
      e: "ar = x # ar'" "valid_script strict_eq Insert s ar' (drop i b)"
      by (auto simp: valid_script_del simp del: valid_script.simps)
    have "dtc_inv xs b ar' i (dtc_step b st t)"
    proof (cases st)
      case (fields cs0 i0 l0)
      show ?thesis
      proof (cases l0)
        case None
        with fields p have "cs0 = cs" "i0 = i'" by auto
        with fields None Delete i' app e(1) show ?thesis
          by (auto intro!: exI [of _ "[x]"])
      next
        case (Some c)
        show ?thesis
        proof (cases c)
          case (InsertChange j vs)
          with fields Some p have "i0 = i'" by auto
          with fields Some InsertChange Delete p l i' app e(1) show ?thesis
            by (auto intro!: exI [of _ "[x]"])
        next
          case (DeleteChange j h)
          with Cons.prems(2) fields Some obtain ds where ds: "i0 = int i" "j = int i"
            "int (length ds) = h" "applyChanges xs cs0 = take i b @ ds @ ar"
            by auto
          with fields Some DeleteChange Delete e(1) show ?thesis
            by (auto intro!: exI [of _ "ds @ [x]"])
        qed
      qed
    qed
    from Cons.IH [OF e(2) this Cons.prems(3)] show ?thesis
      by (simp add: dtc_run_Cons)
  qed
qed

lemma roundtrip_valid_script:
  assumes "valid_script strict_eq Insert s a b"
  shows "applyChanges a (diffToChanges s b) = b"
proof -
  have "dtc_inv a b a 0 ([], 0, None)" by (simp add: applyChanges_def)
  from dtc_run_correct [OF _ this] assms show ?thesis
    by (simp add: diffToChanges_run)
qed

section \<open>The boundary scan\<close>

lemma not_differs_nat:
  "\<not> differs cmp (js_nth a (int j)) (js_nth b (int j)) \<longleftrightarrow>
   j < length a \<and> j < length b \<and> a ! j \<noteq> Undefined \<and> b ! j \<noteq> Undefined \<and> cmp (a ! j) (b ! j)"
  by (auto simp: differs_def js_nth_nat)

lemma ffdi_loop_cases:
  "(ffdi_loop a b cmp i = - 1
      \<and> (\<forall>j. i \<le> j \<and> j < max (length a) (length b)
            \<longrightarrow> \<not> differs cmp (js_nth a (int j)) (js_nth b (int j))))
   \<or> (\<exists>r. ffdi_loop a b cmp i = int r \<and> i \<le> r \<and> r < max (length a) (length b)
          \<and> differs cmp (js_nth a (int r)) (js_nth b (int r))
          \<and> (\<forall>j. i \<le> j \<and> j < r \<longrightarrow> \<not> differs cmp (js_nth a (int j)) (js_nth b (int j))))"
proof (induction a b cmp i rule: ffdi_loop.induct)
  case (1 arr1 arr2 cmp i)
  show ?case
  proof (cases "i < max (length arr1) (length arr2)")
    case False
    then show ?thesis by (subst ffdi_loop.simps) auto
  next
    case True
    show ?thesis
    proof (cases "differs cmp (js_nth arr1 (int i)) (js_nth arr2 (int i))")
      case d: True
      have "ffdi_loop arr1 arr2 cmp i = int i"
        using True d by (subst ffdi_loop.simps) simp
      with True d show ?thesis by auto
    next
      case d: False
      have eq: "ffdi_loop arr1 arr2 cmp i = ffdi_loop arr1 arr2 cmp (Suc i)"
        using True d by (subst ffdi_loop.simps) simp
      have step: "\<And>j. i \<le> j \<Longrightarrow> j = i \<or> Suc i \<le> j" by auto
      from "1.IH" [OF True d] show ?thesis
      proof (elim disjE conjE exE)
        assume a: "ffdi_loop arr1 arr2 cmp (Suc i) = - 1"
          "\<forall>j. Suc i \<le> j \<and> j < max (length arr1) (length arr2)
             \<longrightarrow> \<not> differs cmp (js_nth arr1 (int j)) (js_nth arr2 (int j))"
        have "\<forall>j. i \<le> j \<and> j < max (length arr1) (length arr2)
             \<longrightarrow> \<not> differs cmp (js_nth arr1 (int j)) (js_nth arr2 (int j))"
          using a(2) d step by blast
        with a(1) eq show ?thesis by simp
      next
        fix r
        assume a: "ffdi_loop arr1 arr2 cmp (Suc i) = int r" "Suc i \<le> r"
          "r < max (length arr1) (length arr2)"
          "differs cmp (js_nth arr1 (int r)) (js_nth arr2 (int r))"
          "\<forall>j. Suc i \<le> j \<and> j < r
             \<longrightarrow> \<not> differs cmp (js_nth arr1 (int j)) (js_nth arr2 (int j))"
        have "\<forall>j. i \<le> j \<and> j < r
             \<longrightarrow> \<not> differs cmp (js_nth arr1 (int j)) (js_nth arr2 (int j))"
          using a(5) d step by blast
        with a(1-4) eq show ?thesis by auto
      qed
    qed
  qed
qed

lemma ffdi_none:
  assumes "findFirstDifferenceIndex a b cmp = - 1"
  shows "length a = length b"
    and "\<And>j. j < length a \<Longrightarrow> a ! j \<noteq> Undefined \<and> b ! j \<noteq> Undefined \<and> cmp (a ! j) (b ! j)"
proof -
  from ffdi_loop_cases [of a b cmp 0] assms
  have all: "\<And>j. j < max (length a) (length b) \<Longrightarrow>
      \<not> differs cmp (js_nth a (int j)) (js_nth b (int j))"
    by (auto simp: findFirstDifferenceIndex_def)
  show len: "length a = length b"
  proof (rule ccontr)
    assume "length a \<noteq> length b"
    then have "min (length a) (length b) < max (length a) (length b)" by auto
    from all [OF this] show False by (auto simp: not_differs_nat)
  qed
  fix j assume "j < length a"
  with all [of j] len show "a ! j \<noteq> Undefined \<and> b ! j \<noteq> Undefined \<and> cmp (a ! j) (b ! j)"
    by (simp add: not_differs_nat)
qed

lemma ffdi_some:
  assumes "findFirstDifferenceIndex a b cmp \<noteq> - 1"
  obtains r where "findFirstDifferenceIndex a b cmp = int r"
    and "r < max (length a) (length b)" and "r \<le> length a" and "r \<le> length b"
    and "differs cmp (js_nth a (int r)) (js_nth b (int r))"
    and "\<And>j. j < r \<Longrightarrow> a ! j \<noteq> Undefined \<and> b ! j \<noteq> Undefined \<and> cmp (a ! j) (b ! j)"
proof -
  from ffdi_loop_cases [of a b cmp 0] assms obtain r where
    r: "findFirstDifferenceIndex a b cmp = int r" "r < max (length a) (length b)"
       "differs cmp (js_nth a (int r)) (js_nth b (int r))"
       "\<And>j. j < r \<Longrightarrow> \<not> differs cmp (js_nth a (int j)) (js_nth b (int j))"
    by (auto simp: findFirstDifferenceIndex_def)
  have "r \<le> length a \<and> r \<le> length b"
  proof (cases r)
    case 0
    then show ?thesis by simp
  next
    case (Suc r')
    with r(4) [of r'] show ?thesis by (simp add: not_differs_nat)
  qed
  moreover have "\<And>j. j < r \<Longrightarrow> a ! j \<noteq> Undefined \<and> b ! j \<noteq> Undefined \<and> cmp (a ! j) (b ! j)"
    using r(4) by (simp add: not_differs_nat)
  ultimately show thesis using that r(1-3) by blast
qed

text \<open>The boundary record in terms of the common prefix \<open>r\<close> and the common suffix \<open>q\<close>.\<close>

lemma boundary_cases:
  "(findChangeBoundaryIndexes a b cmp = \<lparr>firstIndex = - 1, lastIndexOld = - 1, lastIndexNew = - 1\<rparr>
      \<and> length a = length b
      \<and> (\<forall>j < length a. a ! j \<noteq> Undefined \<and> b ! j \<noteq> Undefined \<and> cmp (a ! j) (b ! j)))
   \<or> (\<exists>r q. findChangeBoundaryIndexes a b cmp =
          \<lparr>firstIndex = int r, lastIndexOld = int (length a) - int q,
           lastIndexNew = int (length b) - int q\<rparr>
        \<and> r < max (length a) (length b) \<and> r + q \<le> length a \<and> r + q \<le> length b
        \<and> q < max (length a) (length b) - r
        \<and> differs cmp (js_nth a (int r)) (js_nth b (int r))
        \<and> (\<forall>j < r. a ! j \<noteq> Undefined \<and> b ! j \<noteq> Undefined \<and> cmp (a ! j) (b ! j))
        \<and> (\<forall>j < q. cmp (a ! (length a - 1 - j)) (b ! (length b - 1 - j))))"
proof (cases "findFirstDifferenceIndex a b cmp = - 1")
  case True
  have "findChangeBoundaryIndexes a b cmp
      = \<lparr>firstIndex = - 1, lastIndexOld = - 1, lastIndexNew = - 1\<rparr>"
    using True by (simp add: findChangeBoundaryIndexes_def Let_def)
  with ffdi_none [OF True] show ?thesis by blast
next
  case False
  from ffdi_some [OF False] obtain r where
    r: "findFirstDifferenceIndex a b cmp = int r"
       "r < max (length a) (length b)" "r \<le> length a" "r \<le> length b"
       "differs cmp (js_nth a (int r)) (js_nth b (int r))"
       "\<And>j. j < r \<Longrightarrow> a ! j \<noteq> Undefined \<and> b ! j \<noteq> Undefined \<and> cmp (a ! j) (b ! j)"
    by blast
  define ra where "ra = cutAndReverse a (int r)"
  define rb where "rb = cutAndReverse b (int r)"
  have ra: "ra = rev (drop r a)" and rb: "rb = rev (drop r b)"
    by (simp_all add: ra_def rb_def cutAndReverse_def js_slice_from_nat)
  have lra: "length ra = length a - r" and lrb: "length rb = length b - r"
    by (simp_all add: ra rb)
  have nth_ra: "\<And>j. j < length a - r \<Longrightarrow> ra ! j = a ! (length a - 1 - j)"
    using r(3) by (simp add: ra rev_nth) 
  have nth_rb: "\<And>j. j < length b - r \<Longrightarrow> rb ! j = b ! (length b - 1 - j)"
    using r(4) by (simp add: rb rev_nth)
  have ne: "findFirstDifferenceIndex ra rb cmp \<noteq> - 1"
  proof
    assume n: "findFirstDifferenceIndex ra rb cmp = - 1"
    from ffdi_none [OF n] lra lrb have len: "length a - r = length b - r"
      and all: "\<And>j. j < length a - r \<Longrightarrow> ra ! j \<noteq> Undefined \<and> rb ! j \<noteq> Undefined \<and> cmp (ra ! j) (rb ! j)"
      by auto
    from len r(2,3,4) have lt: "r < length a" "r < length b" by auto
    with len have leq: "length a = length b" by arith
    from lt have j: "length a - r - 1 < length a - r" "length b - r - 1 < length b - r" by auto
    have "length a - 1 - (length a - r - 1) = r" "length b - 1 - (length b - r - 1) = r"
      using lt by auto
    with all [OF j(1)] nth_ra [OF j(1)] nth_rb [OF j(2)] leq
    have "a ! r \<noteq> Undefined \<and> b ! r \<noteq> Undefined \<and> cmp (a ! r) (b ! r)" by simp
    with r(5) lt show False by (simp add: differs_def js_nth_nat)
  qed
  from ffdi_some [OF ne] obtain q where
    q: "findFirstDifferenceIndex ra rb cmp = int q"
       "q < max (length ra) (length rb)" "q \<le> length ra" "q \<le> length rb"
       "\<And>j. j < q \<Longrightarrow> ra ! j \<noteq> Undefined \<and> rb ! j \<noteq> Undefined \<and> cmp (ra ! j) (rb ! j)"
    by blast
  have rec: "findChangeBoundaryIndexes a b cmp =
          \<lparr>firstIndex = int r, lastIndexOld = int (length a) - int q,
           lastIndexNew = int (length b) - int q\<rparr>"
    using r(1) q(1) by (simp add: findChangeBoundaryIndexes_def Let_def ra_def rb_def)
  have suffix: "\<forall>j < q. cmp (a ! (length a - 1 - j)) (b ! (length b - 1 - j))"
  proof (intro allI impI)
    fix j assume "j < q"
    with q(3,4) q(5) [of j] lra lrb nth_ra [of j] nth_rb [of j]
    show "cmp (a ! (length a - 1 - j)) (b ! (length b - 1 - j))" by simp
  qed
  have "r + q \<le> length a" "r + q \<le> length b" "q < max (length a) (length b) - r"
    using q(2,3,4) lra lrb r(3,4) by auto
  with rec r(2,5,6) suffix show ?thesis by blast
qed

lemma atomic_stream_shape:
  assumes "r + q \<le> la" "r + q \<le> lb"
  shows "changeIndexesToAtomicChanges
           \<lparr>firstIndex = int r, lastIndexOld = int la - int q, lastIndexNew = int lb - int q\<rparr> lb
         = replicate r Equal @ replicate (lb - q - r) Insert @ replicate (la - q - r) Delete
           @ replicate q Equal"
proof -
  have 1: "nat (int lb - int q - int r) = lb - q - r" "nat (int la - int q - int r) = la - q - r"
    "nat (int lb - (int lb - int q)) = q"
    using assms by auto
  have 2: "\<not> int lb - int q - int r > 0 \<Longrightarrow> lb - q - r = 0"
    "\<not> int la - int q - int r > 0 \<Longrightarrow> la - q - r = 0"
    "\<not> int lb - int q < int lb \<Longrightarrow> q = 0" "\<not> 0 < r \<Longrightarrow> r = 0"
    by auto
  show ?thesis
    unfolding changeIndexesToAtomicChanges_def
    using 1 2 by (auto simp: )
qed

lemma split3:
  assumes "r + q \<le> length a"
  shows "a = take r a @ take (length a - q - r) (drop r a) @ drop (length a - q) a"
proof -
  have 1: "take (length a - q - r) (drop r a) @ drop (length a - q - r) (drop r a) = drop r a"
    by (rule append_take_drop_id)
  have "length a - q - r + r = length a - q" using assms by arith
  then have 2: "drop (length a - q - r) (drop r a) = drop (length a - q) a"
    by (simp only: drop_drop)
  have "take r a @ drop r a = a" by (rule append_take_drop_id)
  with 1 2 show ?thesis by metis
qed

lemma fast_stream_valid:
  "valid_script cmp Insert
     (changeIndexesToAtomicChanges (findChangeBoundaryIndexes a b cmp) (length b)) a b"
proof -
  from boundary_cases [of a b cmp] show ?thesis
  proof (elim disjE conjE exE)
    assume h: "findChangeBoundaryIndexes a b cmp
        = \<lparr>firstIndex = - 1, lastIndexOld = - 1, lastIndexNew = - 1\<rparr>"
      "length a = length b"
      "\<forall>j<length a. a ! j \<noteq> Undefined \<and> b ! j \<noteq> Undefined \<and> cmp (a ! j) (b ! j)"
    from valid_equal_run [of a b cmp Insert] h(2,3)
    have "valid_script cmp Insert (replicate (length b) Equal) a b" by simp
    with h(1) show ?thesis by (simp add: changeIndexesToAtomicChanges_def)
  next
    fix r q
    assume h: "findChangeBoundaryIndexes a b cmp =
          \<lparr>firstIndex = int r, lastIndexOld = int (length a) - int q,
           lastIndexNew = int (length b) - int q\<rparr>"
      "r + q \<le> length a" "r + q \<le> length b"
      "\<forall>j < r. a ! j \<noteq> Undefined \<and> b ! j \<noteq> Undefined \<and> cmp (a ! j) (b ! j)"
      "\<forall>j < q. cmp (a ! (length a - 1 - j)) (b ! (length b - 1 - j))"
    let ?ma = "take (length a - q - r) (drop r a)"
    let ?mb = "take (length b - q - r) (drop r b)"
    let ?sa = "drop (length a - q) a"
    let ?sb = "drop (length b - q) b"
    have lens: "length (take r a) = r" "length (take r b) = r" "length ?ma = length a - q - r"
      "length ?mb = length b - q - r" "length ?sa = q" "length ?sb = q"
      using h(2,3) by auto
    have p: "valid_script cmp Insert (replicate r Equal) (take r a) (take r b)"
      using valid_equal_run [of "take r a" "take r b" cmp Insert] lens(1,2) h(4) by simp
    have i: "valid_script cmp Insert (replicate (length b - q - r) Insert) [] ?mb"
      using valid_insert_run [of Insert cmp ?mb] lens(4) by simp
    have d: "valid_script cmp Insert (replicate (length a - q - r) Delete) ?ma []"
      using valid_delete_run [of Delete Insert cmp ?ma] lens(3) by simp
    have "\<forall>i<q. cmp (?sa ! i) (?sb ! i)"
    proof (intro allI impI)
      fix i assume iq: "i < q"
      then have "q - 1 - i < q" by simp
      with h(5) have "cmp (a ! (length a - 1 - (q - 1 - i))) (b ! (length b - 1 - (q - 1 - i)))"
        by blast
      moreover have "length a - 1 - (q - 1 - i) = length a - q + i"
        "length b - 1 - (q - 1 - i) = length b - q + i"
        using iq h(2,3) by auto
      ultimately show "cmp (?sa ! i) (?sb ! i)" using iq h(2,3) by simp
    qed
    then have s: "valid_script cmp Insert (replicate q Equal) ?sa ?sb"
      using valid_equal_run [of ?sa ?sb cmp Insert] lens(5,6) by simp
    from valid_script_append [OF d s] have ds:
      "valid_script cmp Insert (replicate (length a - q - r) Delete @ replicate q Equal)
         (?ma @ ?sa) ?sb" by simp
    from valid_script_append [OF i ds] have ids:
      "valid_script cmp Insert (replicate (length b - q - r) Insert
          @ replicate (length a - q - r) Delete @ replicate q Equal)
         (?ma @ ?sa) (?mb @ ?sb)" by simp
    from valid_script_append [OF p ids] have
      "valid_script cmp Insert (replicate r Equal @ replicate (length b - q - r) Insert
          @ replicate (length a - q - r) Delete @ replicate q Equal)
         (take r a @ ?ma @ ?sa) (take r b @ ?mb @ ?sb)" .
    with split3 [OF h(2)] split3 [OF h(3)] h(1) atomic_stream_shape [OF h(2,3)]
    show ?thesis by simp
  qed
qed

section \<open>The snake\<close>

lemma slide_spec:
  "\<exists>j. slide a b cmp x y s = (s @ replicate j Equal, y + int j)
     \<and> (\<forall>i<j. x + int i < int (length a) \<and> y + int i < int (length b)
            \<and> cmp (js_nth a (x + int i)) (js_nth b (y + int i)))
     \<and> \<not> (x + int j < int (length a) \<and> y + int j < int (length b)
            \<and> cmp (js_nth a (x + int j)) (js_nth b (y + int j)))"
proof (induction a b cmp x y s rule: slide.induct)
  case (1 a b cmp x y s)
  let ?c = "x < int (length a) \<and> y < int (length b) \<and> cmp (js_nth a x) (js_nth b y)"
  show ?case
  proof (cases ?c)
    case False
    then have "slide a b cmp x y s = (s, y)"
      by (subst slide.simps) (simp only: simp_thms if_False)
    with False show ?thesis by (intro exI [of _ 0]) simp
  next
    case True
    then have eq: "slide a b cmp x y s = slide a b cmp (x + 1) (y + 1) (s @ [Equal])"
      by (subst slide.simps) (simp only: simp_thms if_True)
    from "1.IH" [OF True] obtain j where
      j: "slide a b cmp (x + 1) (y + 1) (s @ [Equal])
            = ((s @ [Equal]) @ replicate j Equal, y + 1 + int j)"
         "\<forall>i<j. x + 1 + int i < int (length a) \<and> y + 1 + int i < int (length b)
            \<and> cmp (js_nth a (x + 1 + int i)) (js_nth b (y + 1 + int i))"
         "\<not> (x + 1 + int j < int (length a) \<and> y + 1 + int j < int (length b)
            \<and> cmp (js_nth a (x + 1 + int j)) (js_nth b (y + 1 + int j)))"
      by blast
    have a: "slide a b cmp x y s = (s @ replicate (Suc j) Equal, y + int (Suc j))"
      using eq j(1) by (simp add: add.commute add.left_commute)
    have b: "\<forall>i<Suc j. x + int i < int (length a) \<and> y + int i < int (length b)
            \<and> cmp (js_nth a (x + int i)) (js_nth b (y + int i))"
    proof (intro allI impI)
      fix i assume i: "i < Suc j"
      show "x + int i < int (length a) \<and> y + int i < int (length b)
            \<and> cmp (js_nth a (x + int i)) (js_nth b (y + int i))"
      proof (cases i)
        case 0
        with True show ?thesis by simp
      next
        case (Suc i')
        with i j(2) have "x + 1 + int i' < int (length a) \<and> y + 1 + int i' < int (length b)
            \<and> cmp (js_nth a (x + 1 + int i')) (js_nth b (y + 1 + int i'))" by simp
        moreover have "x + int i = x + 1 + int i'" "y + int i = y + 1 + int i'"
          using Suc by simp_all
        ultimately show ?thesis by (simp only: simp_thms)
      qed
    qed
    have c: "\<not> (x + int (Suc j) < int (length a) \<and> y + int (Suc j) < int (length b)
            \<and> cmp (js_nth a (x + int (Suc j))) (js_nth b (y + int (Suc j))))"
    proof -
      have "x + int (Suc j) = x + 1 + int j" "y + int (Suc j) = y + 1 + int j" by simp_all
      with j(3) show ?thesis by (simp only: simp_thms)
    qed
    from a b c show ?thesis by blast
  qed
qed

lemma valid_script_snoc_ins:
  assumes "ins \<noteq> Equal" "valid_script cmp ins s a0 (take y b)" "y < length b"
  shows "valid_script cmp ins (s @ [ins]) a0 (take (Suc y) b)"
proof -
  have "valid_script cmp ins [ins] [] [b ! y]" using assms(1) by simp
  from valid_script_append [OF assms(2) this] assms(3) show ?thesis
    by (simp add: take_Suc_conv_app_nth)
qed

lemma valid_script_snoc_del:
  assumes "del \<noteq> Equal" "del \<noteq> ins" "valid_script cmp ins s (take x a) b0" "x < length a"
  shows "valid_script cmp ins (s @ [del]) (take (Suc x) a) b0"
proof -
  have "valid_script cmp ins [del] [a ! x] []" using assms(1,2) by simp
  from valid_script_append [OF assms(3) this] assms(4) show ?thesis
    by (simp add: take_Suc_conv_app_nth)
qed

lemma valid_script_snoc_equals:
  assumes "valid_script cmp ins s (take x a) (take y b)"
    and "x \<le> length a" "y \<le> length b"
    and "\<forall>i<j. int x + int i < int (length a) \<and> int y + int i < int (length b)
            \<and> cmp (js_nth a (int x + int i)) (js_nth b (int y + int i))"
  shows "valid_script cmp ins (s @ replicate j Equal) (take (x + j) a) (take (y + j) b)"
    and "x + j \<le> length a" and "y + j \<le> length b"
proof -
  show le: "x + j \<le> length a" "y + j \<le> length b"
  proof -
    show "x + j \<le> length a"
    proof (cases j)
      case 0
      with assms(2) show ?thesis by simp
    next
      case (Suc j')
      with assms(4) have "int x + int j' < int (length a)" by simp
      with Suc show ?thesis by simp
    qed
    show "y + j \<le> length b"
    proof (cases j)
      case 0
      with assms(3) show ?thesis by simp
    next
      case (Suc j')
      with assms(4) have "int y + int j' < int (length b)" by simp
      with Suc show ?thesis by simp
    qed
  qed
  let ?ra = "take j (drop x a)" and ?rb = "take j (drop y b)"
  have len: "length ?ra = j" "length ?rb = j" using le by auto
  have all: "\<forall>i<length ?ra. cmp (?ra ! i) (?rb ! i)"
  proof (intro allI impI)
    fix i assume "i < length ?ra"
    then have i: "i < j" using len by simp
    with assms(4) have lt: "x + i < length a" "y + i < length b"
      and c: "cmp (js_nth a (int x + int i)) (js_nth b (int y + int i))"
      by (auto simp flip: of_nat_add)
    have "js_nth a (int x + int i) = a ! (x + i)" "js_nth b (int y + int i) = b ! (y + i)"
      using lt js_nth_nat [of a "x + i"] js_nth_nat [of b "y + i"] by simp_all
    with c i le show "cmp (?ra ! i) (?rb ! i)" by simp
  qed
  have "length ?ra = length ?rb" using len by simp
  then have "valid_script cmp ins (replicate (length ?ra) Equal) ?ra ?rb"
    using all by (rule valid_equal_run)
  then have "valid_script cmp ins (replicate j Equal) ?ra ?rb"
    by (simp only: len)
  from valid_script_append [OF assms(1) this]
  show "valid_script cmp ins (s @ replicate j Equal) (take (x + j) a) (take (y + j) b)"
    by (simp add: take_add)
qed

lemma snake_finish:
  assumes "0 \<le> x" "0 \<le> y" "x \<le> int (length a)" "y \<le> int (length b)"
    and "valid_script cmp ins s (take (nat x) a) (take (nat y) b)"
  obtains j where "slide a b cmp x y (ins # s) = (ins # s @ replicate j Equal, y + int j)"
    and "x + int j \<le> int (length a)" and "y + int j \<le> int (length b)"
    and "valid_script cmp ins (s @ replicate j Equal)
           (take (nat (x + int j)) a) (take (nat (y + int j)) b)"
    and "\<not> (x + int j < int (length a) \<and> y + int j < int (length b)
            \<and> cmp (js_nth a (x + int j)) (js_nth b (y + int j)))"
proof -
  from slide_spec [of a b cmp x y "ins # s"] obtain j where
    j: "slide a b cmp x y (ins # s) = ((ins # s) @ replicate j Equal, y + int j)"
       "\<forall>i<j. x + int i < int (length a) \<and> y + int i < int (length b)
            \<and> cmp (js_nth a (x + int i)) (js_nth b (y + int i))"
       "\<not> (x + int j < int (length a) \<and> y + int j < int (length b)
            \<and> cmp (js_nth a (x + int j)) (js_nth b (y + int j)))"
    by blast
  have xy: "int (nat x) = x" "int (nat y) = y" using assms(1,2) by simp_all
  have le: "nat x \<le> length a" "nat y \<le> length b" using assms(1-4) by simp_all
  have all: "\<forall>i<j. int (nat x) + int i < int (length a) \<and> int (nat y) + int i < int (length b)
            \<and> cmp (js_nth a (int (nat x) + int i)) (js_nth b (int (nat y) + int i))"
    using j(2) by (simp only: xy)
  note v = valid_script_snoc_equals [OF assms(5) le all]
  have n: "nat (x + int j) = nat x + j" "nat (y + int j) = nat y + j"
    using assms(1,2) by (simp_all add: nat_add_distrib)
  have "x + int j \<le> int (length a)" "y + int j \<le> int (length b)"
    using v(2,3) assms(1,2) by linarith+
  moreover have "valid_script cmp ins (s @ replicate j Equal)
           (take (nat (x + int j)) a) (take (nat (y + int j)) b)"
    using v(1) by (simp only: n)
  ultimately show thesis using that [of j] j(1,3) by simp
qed

lemma snake_step_good:
  assumes tok: "ins \<noteq> Equal" "del \<noteq> Equal" "del \<noteq> ins"
    and L: "\<And>l. fp (k - 1) = Some l \<Longrightarrow> good a b cmp ins es (k - 1) l \<and> l + 1 \<le> int (length b)"
    and R: "\<And>r. fp (k + 1) = Some r \<Longrightarrow> good a b cmp ins es (k + 1) r \<and> r - k \<le> int (length a)"
    and N: "fp (k - 1) = None \<Longrightarrow> fp (k + 1) = None \<Longrightarrow> es (k - 1) = None \<and> es k = None \<and> k = 0"
  obtains s y e where "snake_step a b cmp ins del k (es, fp) = (es(k \<mapsto> ins # s @ replicate e Equal), fp(k \<mapsto> y))"
    and "good a b cmp ins (es(k \<mapsto> ins # s @ replicate e Equal)) k y"
    and "\<And>l. fp (k - 1) = Some l \<Longrightarrow> l + 1 \<le> y"
    and "\<And>r. fp (k + 1) = Some r \<Longrightarrow> r \<le> y"
    and "\<not> (y - k < int (length a) \<and> y < int (length b)
            \<and> cmp (js_nth a (y - k)) (js_nth b y))"
    and "(fp (k - 1) = None \<and> fp (k + 1) = None \<and> k = 0 \<and> s = [])
         \<or> (\<exists>s0. es (k - 1) = Some (ins # s0) \<and> s = s0 @ [ins])
         \<or> (\<exists>s0. es (k + 1) = Some (ins # s0) \<and> s = s0 @ [del])"
proof -
  define y1 where "y1 = (case fp (k - 1) of Some v \<Rightarrow> v | None \<Rightarrow> - 1) + 1"
  define y2 where "y2 = (case fp (k + 1) of Some v \<Rightarrow> v | None \<Rightarrow> - 1)"
  define s0 where "s0 = (case es (k + (if y1 > y2 then - 1 else 1)) of Some s \<Rightarrow> s
                  | None \<Rightarrow> (case es k of Some s \<Rightarrow> s | None \<Rightarrow> []))"
  define t where "t = (if y1 > y2 then ins else del)"
  have unfold: "snake_step a b cmp ins del k (es, fp) =
      (case slide a b cmp (max y1 y2 - k) (max y1 y2) (s0 @ [t]) of
         (s2, y') \<Rightarrow> (es(k \<mapsto> s2), fp(k \<mapsto> y')))"
    by (simp add: snake_step_def snake_def Let_def y1_def y2_def s0_def t_def split: prod.splits)
  have start: "\<exists>s. s0 @ [t] = ins # s \<and> 0 \<le> max y1 y2 - k \<and> 0 \<le> max y1 y2
      \<and> max y1 y2 - k \<le> int (length a) \<and> max y1 y2 \<le> int (length b)
      \<and> valid_script cmp ins s (take (nat (max y1 y2 - k)) a) (take (nat (max y1 y2)) b)
      \<and> ((fp (k - 1) = None \<and> fp (k + 1) = None \<and> k = 0 \<and> s = [])
         \<or> (\<exists>s0. es (k - 1) = Some (ins # s0) \<and> s = s0 @ [ins])
         \<or> (\<exists>s0. es (k + 1) = Some (ins # s0) \<and> s = s0 @ [del]))"
  proof (cases "y1 > y2")
    case True
    show ?thesis
    proof (cases "fp (k - 1)")
      case None
      with True have y2: "y2 < 0" by (simp add: y1_def)
      have "fp (k + 1) = None"
      proof (cases "fp (k + 1)")
        case (Some r)
        with R [OF Some] y2 show ?thesis by (simp add: y2_def good_def)
      qed simp
      from N [OF None this] have e: "es (k - 1) = None" "es k = None" "k = 0" by auto
      have "s0 = []" using True e by (simp add: s0_def)
      moreover have "y1 = 0" using None by (simp add: y1_def)
      ultimately show ?thesis using True e(3) y2 None \<open>fp (k + 1) = None\<close>
        by (simp add: t_def max_def)
    next
      case (Some l)
      from L [OF Some] obtain s where
        g: "0 \<le> l - (k - 1)" "l - (k - 1) \<le> int (length a)" "0 \<le> l" "l + 1 \<le> int (length b)"
           "es (k - 1) = Some (ins # s)"
           "valid_script cmp ins s (take (nat (l - (k - 1))) a) (take (nat l) b)"
        by (auto simp: good_def)
      have y1: "y1 = l + 1" using Some by (simp add: y1_def)
      have m: "max y1 y2 = l + 1" using True y1 by simp
      have s0: "s0 = ins # s" using True g(5) by (simp add: s0_def)
      have "nat l < length b" using g(3,4) by simp
      from valid_script_snoc_ins [OF tok(1) g(6) this]
      have "valid_script cmp ins (s @ [ins]) (take (nat (l - (k - 1))) a) (take (Suc (nat l)) b)" .
      moreover have "Suc (nat l) = nat (l + 1)" "l - (k - 1) = l + 1 - k" using g(3) by simp_all
      ultimately have "valid_script cmp ins (s @ [ins]) (take (nat (l + 1 - k)) a) (take (nat (l + 1)) b)"
        by simp
      with m s0 True g(1-5) show ?thesis by (simp add: t_def)
    qed
  next
    case False
    have "fp (k + 1) \<noteq> None"
    proof
      assume n: "fp (k + 1) = None"
      then have "y2 = - 1" by (simp add: y2_def)
      moreover have "0 \<le> y1"
      proof (cases "fp (k - 1)")
        case None
        then show ?thesis by (simp add: y1_def)
      next
        case (Some l)
        with L [OF Some] show ?thesis by (simp add: y1_def good_def)
      qed
      ultimately show False using False by simp
    qed
    then obtain r where Some: "fp (k + 1) = Some r" by auto
    from R [OF Some] obtain s where
      g: "0 \<le> r - (k + 1)" "r - (k + 1) \<le> int (length a)" "0 \<le> r" "r \<le> int (length b)"
         "es (k + 1) = Some (ins # s)" "r - k \<le> int (length a)"
         "valid_script cmp ins s (take (nat (r - (k + 1))) a) (take (nat r) b)"
      by (auto simp: good_def)
    have y2: "y2 = r" using Some by (simp add: y2_def)
    have m: "max y1 y2 = r" using False y2 by simp
    have s0: "s0 = ins # s" using False g(5) by (simp add: s0_def)
    have "nat (r - (k + 1)) < length a" using g(1,6) by simp
    from valid_script_snoc_del [OF tok(2,3) g(7) this]
    have "valid_script cmp ins (s @ [del]) (take (Suc (nat (r - (k + 1)))) a) (take (nat r) b)" .
    moreover have "Suc (nat (r - (k + 1))) = nat (r - k)" using g(1) by simp
    ultimately have "valid_script cmp ins (s @ [del]) (take (nat (r - k)) a) (take (nat r) b)"
      by simp
    with m s0 False g(1-6) show ?thesis by (simp add: t_def)
  qed
  then obtain s where s: "s0 @ [t] = ins # s" "0 \<le> max y1 y2 - k" "0 \<le> max y1 y2"
      "max y1 y2 - k \<le> int (length a)" "max y1 y2 \<le> int (length b)"
      "valid_script cmp ins s (take (nat (max y1 y2 - k)) a) (take (nat (max y1 y2)) b)"
      "(fp (k - 1) = None \<and> fp (k + 1) = None \<and> k = 0 \<and> s = [])
         \<or> (\<exists>s0. es (k - 1) = Some (ins # s0) \<and> s = s0 @ [ins])
         \<or> (\<exists>s0. es (k + 1) = Some (ins # s0) \<and> s = s0 @ [del])"
    by (elim exE conjE)
  from snake_finish [OF s(2,3,4,5,6)] obtain j where
    j: "slide a b cmp (max y1 y2 - k) (max y1 y2) (ins # s)
          = (ins # s @ replicate j Equal, max y1 y2 + int j)"
       "max y1 y2 - k + int j \<le> int (length a)" "max y1 y2 + int j \<le> int (length b)"
       "valid_script cmp ins (s @ replicate j Equal)
           (take (nat (max y1 y2 - k + int j)) a) (take (nat (max y1 y2 + int j)) b)"
       "\<not> (max y1 y2 - k + int j < int (length a) \<and> max y1 y2 + int j < int (length b)
            \<and> cmp (js_nth a (max y1 y2 - k + int j)) (js_nth b (max y1 y2 + int j)))"
    by blast
  let ?y = "max y1 y2 + int j"
  let ?s = "ins # s @ replicate j Equal"
  have 1: "snake_step a b cmp ins del k (es, fp) = (es(k \<mapsto> ?s), fp(k \<mapsto> ?y))"
    using unfold s(1) j(1) by simp
  have yk: "max y1 y2 - k + int j = ?y - k" by simp
  with j(2,3,4) s(2,3) have 2: "good a b cmp ins (es(k \<mapsto> ?s)) k ?y"
    by (simp add: good_def)
  have 5: "\<not> (?y - k < int (length a) \<and> ?y < int (length b)
            \<and> cmp (js_nth a (?y - k)) (js_nth b ?y))"
    using j(5) by (simp only: yk simp_thms)
  have 3: "\<And>l. fp (k - 1) = Some l \<Longrightarrow> l + 1 \<le> ?y"
    by (simp add: y1_def max_def)
  have 4: "\<And>r. fp (k + 1) = Some r \<Longrightarrow> r \<le> ?y"
    by (simp add: y2_def max_def)
  from that [OF 1 2 3 4 5 s(7)] show thesis .
qed

section \<open>Invariants of the search\<close>

lemma base_inv_weaken: "base_inv a b cmp ins D S st \<Longrightarrow> S' \<subseteq> S \<Longrightarrow> D' = D
  \<Longrightarrow> base_inv a b cmp ins D' S' st"
  unfolding base_inv_def by blast

lemma snake_step_inv_full:
  assumes tok: "ins \<noteq> Equal" "del \<noteq> Equal" "del \<noteq> ins"
    and delta: "delta = int (length b) - int (length a)"
    and inv: "base_inv a b cmp ins D S (es, fp)"
    and pre1: "k - 1 \<in> D \<longrightarrow> k \<le> delta \<or> k - 1 \<in> S"
    and pre2: "k + 1 \<in> D \<longrightarrow> delta \<le> k \<or> k + 1 \<in> S"
    and pre3: "k - 1 \<notin> D \<and> k + 1 \<notin> D \<longrightarrow> k \<notin> D \<and> k = 0"
  shows "\<exists>s y e.
      snake_step a b cmp ins del k (es, fp) = (es(k \<mapsto> ins # s @ replicate e Equal), fp(k \<mapsto> y))
    \<and> base_inv a b cmp ins (insert k D) (S - {k})
        (es(k \<mapsto> ins # s @ replicate e Equal), fp(k \<mapsto> y))
    \<and> (\<forall>l. fp (k - 1) = Some l \<longrightarrow> l + 1 \<le> y)
    \<and> (\<forall>r. fp (k + 1) = Some r \<longrightarrow> r \<le> y)
    \<and> \<not> (y - k < int (length a) \<and> y < int (length b) \<and> cmp (js_nth a (y - k)) (js_nth b y))
    \<and> ((fp (k - 1) = None \<and> fp (k + 1) = None \<and> k = 0 \<and> s = [])
         \<or> (\<exists>s0. es (k - 1) = Some (ins # s0) \<and> s = s0 @ [ins])
         \<or> (\<exists>s0. es (k + 1) = Some (ins # s0) \<and> s = s0 @ [del]))"
proof -
  from inv have dom: "\<And>j. (fp j \<noteq> None) = (j \<in> D)"
    and esn: "\<And>j. fp j = None \<Longrightarrow> es j = None"
    and gd: "\<And>j y. fp j = Some y \<Longrightarrow> good a b cmp ins es j y"
    and st: "\<And>j y. fp j = Some y \<Longrightarrow> j \<in> S \<Longrightarrow> y - j < int (length a) \<and> y < int (length b)"
    by (auto simp: base_inv_def)
  have L: "good a b cmp ins es (k - 1) l \<and> l + 1 \<le> int (length b)" if "fp (k - 1) = Some l" for l
  proof -
    from that dom [of "k - 1"] have "k - 1 \<in> D" by simp
    with pre1 have "k \<le> delta \<or> k - 1 \<in> S" by simp
    then have "l + 1 \<le> int (length b)"
    proof
      assume "k \<le> delta"
      moreover from gd [OF that] have "l - (k - 1) \<le> int (length a)" by (simp add: good_def)
      ultimately show ?thesis using delta by simp
    next
      assume "k - 1 \<in> S"
      from st [OF that this] show ?thesis by simp
    qed
    with gd [OF that] show ?thesis by simp
  qed
  have R: "good a b cmp ins es (k + 1) r \<and> r - k \<le> int (length a)" if "fp (k + 1) = Some r" for r
  proof -
    from that dom [of "k + 1"] have "k + 1 \<in> D" by simp
    with pre2 have "delta \<le> k \<or> k + 1 \<in> S" by simp
    then have "r - k \<le> int (length a)"
    proof
      assume "delta \<le> k"
      moreover from gd [OF that] have "r \<le> int (length b)" by (simp add: good_def)
      ultimately show ?thesis using delta by simp
    next
      assume "k + 1 \<in> S"
      from st [OF that this] show ?thesis by simp
    qed
    with gd [OF that] show ?thesis by simp
  qed
  have N: "es (k - 1) = None \<and> es k = None \<and> k = 0" if "fp (k - 1) = None" "fp (k + 1) = None"
  proof -
    from that dom [of "k - 1"] dom [of "k + 1"] have "k - 1 \<notin> D" "k + 1 \<notin> D" by auto
    with pre3 have "k \<notin> D" "k = 0" by auto
    with dom [of k] have "fp k = None" by auto
    with esn [of k] esn [OF that(1)] \<open>k = 0\<close> show ?thesis by simp
  qed
  show ?thesis
  proof (rule snake_step_good [OF tok L R N])
  fix s0 y e assume
    r: "snake_step a b cmp ins del k (es, fp)
          = (es(k \<mapsto> ins # s0 @ replicate e Equal), fp(k \<mapsto> y))"
       "good a b cmp ins (es(k \<mapsto> ins # s0 @ replicate e Equal)) k y"
       "\<And>l. fp (k - 1) = Some l \<Longrightarrow> l + 1 \<le> y"
       "\<And>r. fp (k + 1) = Some r \<Longrightarrow> r \<le> y"
       "\<not> (y - k < int (length a) \<and> y < int (length b) \<and> cmp (js_nth a (y - k)) (js_nth b y))"
       "(fp (k - 1) = None \<and> fp (k + 1) = None \<and> k = 0 \<and> s0 = [])
         \<or> (\<exists>s1. es (k - 1) = Some (ins # s1) \<and> s0 = s1 @ [ins])
         \<or> (\<exists>s1. es (k + 1) = Some (ins # s1) \<and> s0 = s1 @ [del])"
  define s where "s = ins # s0 @ replicate e Equal"
  note r' = r(1,2) [folded s_def]
  have "base_inv a b cmp ins (insert k D) (S - {k}) (es(k \<mapsto> s), fp(k \<mapsto> y))"
    unfolding base_inv_def
  proof (intro conjI allI impI)
    fix j show "(snd (es(k \<mapsto> s), fp(k \<mapsto> y)) j \<noteq> None) = (j \<in> insert k D)"
      using dom [of j] by auto
  next
    fix j assume "snd (es(k \<mapsto> s), fp(k \<mapsto> y)) j = None"
    then show "fst (es(k \<mapsto> s), fp(k \<mapsto> y)) j = None"
      using esn [of j] by (auto split: if_splits)
  next
    fix j y' assume h: "snd (es(k \<mapsto> s), fp(k \<mapsto> y)) j = Some y'"
    show "good a b cmp ins (fst (es(k \<mapsto> s), fp(k \<mapsto> y))) j y'"
    proof (cases "j = k")
      case True
      with h r'(2) show ?thesis by simp
    next
      case False
      with h have "fp j = Some y'" by simp
      from gd [OF this] False show ?thesis by (simp add: good_def)
    qed
  next
    fix j y' assume h: "snd (es(k \<mapsto> s), fp(k \<mapsto> y)) j = Some y'" "j \<in> S - {k}"
    then have "fp j = Some y'" "j \<in> S" by auto
    from st [OF this] show "y' - j < int (length a)" "y' < int (length b)" by auto
  qed
  then have "base_inv a b cmp ins (insert k D) (S - {k})
      (es(k \<mapsto> ins # s0 @ replicate e Equal), fp(k \<mapsto> y))"
    by (simp only: s_def)
  with r(1,3,4,5,6) show ?thesis
    by (intro exI [of _ s0] exI [of _ y] exI [of _ e] conjI allI impI)
  qed
qed

lemma step_resultD:
  assumes "step_result a b cmp ins del k (es, fp) st'"
  obtains y where "snd st' = fp(k \<mapsto> y)"
    "\<And>l. fp (k - 1) = Some l \<Longrightarrow> l + 1 \<le> y" "\<And>r. fp (k + 1) = Some r \<Longrightarrow> r \<le> y"
proof -
  from assms obtain s y e where
    "st' = (es(k \<mapsto> ins # s @ replicate e Equal), fp(k \<mapsto> y))"
    "\<forall>l. fp (k - 1) = Some l \<longrightarrow> l + 1 \<le> y" "\<forall>r. fp (k + 1) = Some r \<longrightarrow> r \<le> y"
    unfolding step_result_def fst_conv snd_conv by (elim exE conjE)
  then show thesis using that [of y] by simp
qed

lemma snake_step_result:
  assumes tok: "ins \<noteq> Equal" "del \<noteq> Equal" "del \<noteq> ins"
    and delta: "delta = int (length b) - int (length a)"
    and inv: "base_inv a b cmp ins D S (es, fp)"
    and pre1: "k - 1 \<in> D \<longrightarrow> k \<le> delta \<or> k - 1 \<in> S"
    and pre2: "k + 1 \<in> D \<longrightarrow> delta \<le> k \<or> k + 1 \<in> S"
    and pre3: "k - 1 \<notin> D \<and> k + 1 \<notin> D \<longrightarrow> k \<notin> D \<and> k = 0"
  shows "base_inv a b cmp ins (insert k D) (S - {k}) (snake_step a b cmp ins del k (es, fp))"
    and "step_result a b cmp ins del k (es, fp) (snake_step a b cmp ins del k (es, fp))"
proof -
  from snake_step_inv_full [OF assms] obtain s y e where
    r: "snake_step a b cmp ins del k (es, fp) = (es(k \<mapsto> ins # s @ replicate e Equal), fp(k \<mapsto> y))"
    "base_inv a b cmp ins (insert k D) (S - {k})
        (es(k \<mapsto> ins # s @ replicate e Equal), fp(k \<mapsto> y))"
    "\<forall>l. fp (k - 1) = Some l \<longrightarrow> l + 1 \<le> y"
    "\<forall>r. fp (k + 1) = Some r \<longrightarrow> r \<le> y"
    "\<not> (y - k < int (length a) \<and> y < int (length b) \<and> cmp (js_nth a (y - k)) (js_nth b y))"
    "(fp (k - 1) = None \<and> fp (k + 1) = None \<and> k = 0 \<and> s = [])
         \<or> (\<exists>s0. es (k - 1) = Some (ins # s0) \<and> s = s0 @ [ins])
         \<or> (\<exists>s0. es (k + 1) = Some (ins # s0) \<and> s = s0 @ [del])"
    by (elim exE conjE)
  from r(1,2) show "base_inv a b cmp ins (insert k D) (S - {k})
      (snake_step a b cmp ins del k (es, fp))" by simp
  show "step_result a b cmp ins del k (es, fp) (snake_step a b cmp ins del k (es, fp))"
    unfolding step_result_def fst_conv snd_conv
    using r(1,3,4,5,6) by (intro exI [of _ s] exI [of _ y] exI [of _ e] conjI)
qed

lemma up_step:
  assumes tok: "ins \<noteq> Equal" "del \<noteq> Equal" "del \<noteq> ins"
    and delta: "delta = int (length b) - int (length a)" "0 \<le> delta"
    and p: "0 \<le> p" and k: "- p \<le> k" "k < delta"
    and inv: "up_inv a b cmp ins delta p k st"
  shows "up_inv a b cmp ins delta p (k + 1) (snake_step a b cmp ins del k st)"
    and "step_result a b cmp ins del k st (snake_step a b cmp ins del k st)"
proof -
  obtain es fp where st: "st = (es, fp)" by (cases st)
  let ?D = "{- p..<k} \<union> Old delta p"
  from inv st have binv: "base_inv a b cmp ins ?D {k..} (es, fp)"
    and ch: "chain_up fp (- p) (k - 1)"
    by (simp_all add: up_inv_def)
  have pre1: "k - 1 \<in> ?D \<longrightarrow> k \<le> delta \<or> k - 1 \<in> {k..}" using k(2) by simp
  have pre2: "k + 1 \<in> ?D \<longrightarrow> delta \<le> k \<or> k + 1 \<in> {k..}" by simp
  have pre3': "k \<notin> ?D \<and> k = 0" if h: "k - 1 \<notin> ?D" "k + 1 \<notin> ?D"
  proof -
    from h(1) have "\<not> - p \<le> k - 1" by simp
    with k(1) have kp: "k = - p" by linarith
    have "p = 0"
    proof (rule ccontr)
      assume "p \<noteq> 0"
      then have "Old delta p = {1 - p..delta + p - 1}" by (simp add: Old_def)
      with h(2) kp have "\<not> 1 - p \<le> delta + p - 1" by simp
      with delta(2) p \<open>p \<noteq> 0\<close> show False by linarith
    qed
    with kp show ?thesis by (simp add: Old_def)
  qed
  then have pre3: "k - 1 \<notin> ?D \<and> k + 1 \<notin> ?D \<longrightarrow> k \<notin> ?D \<and> k = 0"
    by (intro impI) (elim conjE)
  note r = snake_step_result [OF tok delta(1) binv pre1 pre2 pre3]
  from r(2) show "step_result a b cmp ins del k st (snake_step a b cmp ins del k st)"
    by (simp add: st)
  from step_resultD [OF r(2)] obtain y where
    y: "snd (snake_step a b cmp ins del k (es, fp)) = fp(k \<mapsto> y)"
       "\<And>l. fp (k - 1) = Some l \<Longrightarrow> l + 1 \<le> y" by blast
  have "base_inv a b cmp ins ({- p..<k + 1} \<union> Old delta p) {k + 1..}
      (snake_step a b cmp ins del k (es, fp))"
    by (rule base_inv_weaken [OF r(1)]) (use k(1) in auto)
  moreover have "chain_up (fp(k \<mapsto> y)) (- p) (k + 1 - 1)"
    unfolding chain_up_def
  proof (intro allI impI)
    fix j y1 y2
    assume h: "- p \<le> j \<and> j < k + 1 - 1" "(fp(k \<mapsto> y)) j = Some y1"
      "(fp(k \<mapsto> y)) (j + 1) = Some y2"
    show "y1 + 1 \<le> y2"
    proof (cases "j + 1 = k")
      case True
      with h have "fp (k - 1) = Some y1" "y2 = y" by auto
      with y(2) show ?thesis by simp
    next
      case False
      with h have "fp j = Some y1" "fp (j + 1) = Some y2" "- p \<le> j \<and> j < k - 1" by auto
      with ch show ?thesis unfolding chain_up_def by blast
    qed
  qed
  ultimately show "up_inv a b cmp ins delta p (k + 1) (snake_step a b cmp ins del k st)"
    using st y(1) by (simp add: up_inv_def)
qed

lemma down_step:
  assumes tok: "ins \<noteq> Equal" "del \<noteq> Equal" "del \<noteq> ins"
    and delta: "delta = int (length b) - int (length a)" "0 \<le> delta"
    and p: "0 \<le> p" and k: "delta < k" "k \<le> delta + p"
    and inv: "down_inv a b cmp ins delta p k st"
  shows "down_inv a b cmp ins delta p (k - 1) (snake_step a b cmp ins del k st)"
    and "step_result a b cmp ins del k st (snake_step a b cmp ins del k st)"
proof -
  obtain es fp where st: "st = (es, fp)" by (cases st)
  let ?D = "{- p..<delta} \<union> {k<..delta + p} \<union> Old delta p"
  from inv st have binv: "base_inv a b cmp ins ?D {delta..k} (es, fp)"
    and chu: "chain_up fp (- p) (delta - 1)"
    and chd: "chain_down fp (k + 1) (delta + p)"
    by (simp_all add: down_inv_def)
  have pre1: "k - 1 \<in> ?D \<longrightarrow> k \<le> delta \<or> k - 1 \<in> {delta..k}" using k(1) by simp
  have pre2: "k + 1 \<in> ?D \<longrightarrow> delta \<le> k \<or> k + 1 \<in> {delta..k}" using k(1) by simp
  have pre3': "k \<notin> ?D \<and> k = 0" if h: "k - 1 \<notin> ?D" "k + 1 \<notin> ?D"
  proof -
    have "p \<noteq> 0" using k by linarith
    then have "Old delta p = {1 - p..delta + p - 1}" by (simp add: Old_def)
    with h(1) have "\<not> (1 - p \<le> k - 1 \<and> k - 1 \<le> delta + p - 1)" by simp
    with k delta(2) p show ?thesis by linarith
  qed
  then have pre3: "k - 1 \<notin> ?D \<and> k + 1 \<notin> ?D \<longrightarrow> k \<notin> ?D \<and> k = 0"
    by (intro impI) (elim conjE)
  note r = snake_step_result [OF tok delta(1) binv pre1 pre2 pre3]
  from r(2) show "step_result a b cmp ins del k st (snake_step a b cmp ins del k st)"
    by (simp add: st)
  from step_resultD [OF r(2)] obtain y where
    y: "snd (snake_step a b cmp ins del k (es, fp)) = fp(k \<mapsto> y)"
       "\<And>r. fp (k + 1) = Some r \<Longrightarrow> r \<le> y" by blast
  have "base_inv a b cmp ins ({- p..<delta} \<union> {k - 1<..delta + p} \<union> Old delta p) {delta..k - 1}
      (snake_step a b cmp ins del k (es, fp))"
    by (rule base_inv_weaken [OF r(1)]) (use k in auto)
  moreover have "chain_up (fp(k \<mapsto> y)) (- p) (delta - 1)"
    using chu k(1) unfolding chain_up_def by auto
  moreover have "chain_down (fp(k \<mapsto> y)) (k - 1 + 1) (delta + p)"
    unfolding chain_down_def
  proof (intro allI impI)
    fix j y1 y2
    assume h: "k - 1 + 1 \<le> j \<and> j < delta + p" "(fp(k \<mapsto> y)) j = Some y1"
      "(fp(k \<mapsto> y)) (j + 1) = Some y2"
    show "y2 \<le> y1"
    proof (cases "j = k")
      case True
      with h have "fp (k + 1) = Some y2" "y1 = y" by auto
      with y(2) show ?thesis by simp
    next
      case False
      with h have "fp j = Some y1" "fp (j + 1) = Some y2" "k + 1 \<le> j \<and> j < delta + p" by auto
      with chd show ?thesis unfolding chain_down_def by blast
    qed
  qed
  ultimately show "down_inv a b cmp ins delta p (k - 1) (snake_step a b cmp ins del k st)"
    using st y(1) by (simp add: down_inv_def)
qed

lemma final_step:
  assumes tok: "ins \<noteq> Equal" "del \<noteq> Equal" "del \<noteq> ins"
    and delta: "delta = int (length b) - int (length a)" "0 \<le> delta"
    and p: "0 \<le> p"
    and inv: "down_inv a b cmp ins delta p delta st"
  shows "after_inv a b cmp ins delta p (snake_step a b cmp ins del delta st)"
    and "step_result a b cmp ins del delta st (snake_step a b cmp ins del delta st)"
proof -
  obtain es fp where st: "st = (es, fp)" by (cases st)
  let ?D = "{- p..<delta} \<union> {delta<..delta + p} \<union> Old delta p"
  from inv st have binv: "base_inv a b cmp ins ?D {delta..delta} (es, fp)"
    and chu: "chain_up fp (- p) (delta - 1)"
    and chd: "chain_down fp (delta + 1) (delta + p)"
    by (simp_all add: down_inv_def)
  have pre1: "delta - 1 \<in> ?D \<longrightarrow> delta \<le> delta \<or> delta - 1 \<in> {delta..delta}" by simp
  have pre2: "delta + 1 \<in> ?D \<longrightarrow> delta \<le> delta \<or> delta + 1 \<in> {delta..delta}" by simp
  have pre3': "delta \<notin> ?D \<and> delta = 0" if h: "delta - 1 \<notin> ?D" "delta + 1 \<notin> ?D"
  proof -
    from h(1) have "\<not> - p \<le> delta - 1" by simp
    with delta(2) p have "delta = 0" "p = 0" by linarith+
    then show ?thesis by (simp add: Old_def)
  qed
  then have pre3: "delta - 1 \<notin> ?D \<and> delta + 1 \<notin> ?D \<longrightarrow> delta \<notin> ?D \<and> delta = 0"
    by (intro impI) (elim conjE)
  note r = snake_step_result [OF tok delta(1) binv pre1 pre2 pre3]
  from r(2) show "step_result a b cmp ins del delta st (snake_step a b cmp ins del delta st)"
    by (simp add: st)
  from step_resultD [OF r(2)] obtain y where
    y: "snd (snake_step a b cmp ins del delta (es, fp)) = fp(delta \<mapsto> y)"
       "\<And>l. fp (delta - 1) = Some l \<Longrightarrow> l + 1 \<le> y"
       "\<And>r. fp (delta + 1) = Some r \<Longrightarrow> r \<le> y" by blast
  have 1: "base_inv a b cmp ins {- p..delta + p} {} (snake_step a b cmp ins del delta (es, fp))"
  proof (rule base_inv_weaken [OF r(1)])
    show "{} \<subseteq> {delta..delta} - {delta}" by simp
    show "{- p..delta + p} = insert delta ?D"
    proof (cases "p = 0")
      case True
      then show ?thesis using delta(2) by (auto simp: Old_def)
    next
      case False
      then show ?thesis using delta(2) p by (auto simp: Old_def)
    qed
  qed
  have 2: "chain_up (fp(delta \<mapsto> y)) (- p) delta"
    unfolding chain_up_def
  proof (intro allI impI)
    fix j y1 y2
    assume h: "- p \<le> j \<and> j < delta" "(fp(delta \<mapsto> y)) j = Some y1"
      "(fp(delta \<mapsto> y)) (j + 1) = Some y2"
    show "y1 + 1 \<le> y2"
    proof (cases "j + 1 = delta")
      case True
      with h have "fp (delta - 1) = Some y1" "y2 = y" by auto
      with y(2) show ?thesis by simp
    next
      case False
      with h have "fp j = Some y1" "fp (j + 1) = Some y2" "- p \<le> j \<and> j < delta - 1" by auto
      with chu show ?thesis unfolding chain_up_def by blast
    qed
  qed
  have 3: "chain_down (fp(delta \<mapsto> y)) delta (delta + p)"
    unfolding chain_down_def
  proof (intro allI impI)
    fix j y1 y2
    assume h: "delta \<le> j \<and> j < delta + p" "(fp(delta \<mapsto> y)) j = Some y1"
      "(fp(delta \<mapsto> y)) (j + 1) = Some y2"
    show "y2 \<le> y1"
    proof (cases "j = delta")
      case True
      with h have "fp (delta + 1) = Some y2" "y1 = y" by auto
      with y(3) show ?thesis by simp
    next
      case False
      with h have "fp j = Some y1" "fp (j + 1) = Some y2" "delta + 1 \<le> j \<and> j < delta + p" by auto
      with chd show ?thesis unfolding chain_down_def by blast
    qed
  qed
  from 1 2 3 st y(1) show "after_inv a b cmp ins delta p (snake_step a b cmp ins del delta st)"
    by (simp add: after_inv_def)
qed

lemma up_loop_inv:
  assumes "ins \<noteq> Equal" "del \<noteq> Equal" "del \<noteq> ins"
    and "delta = int (length b) - int (length a)" "0 \<le> delta" "0 \<le> p" "- p \<le> k" "k \<le> delta"
    and "up_inv a b cmp ins delta p k st"
  shows "up_inv a b cmp ins delta p delta (up_loop a b cmp ins del delta k st)"
  using assms
proof (induction a b cmp ins del delta k st rule: up_loop.induct)
  case (1 a b cmp ins del delta k st)
  show ?case
  proof (cases "k < delta")
    case False
    with "1.prems"(8) have "k = delta" by simp
    with "1.prems"(9) show ?thesis by (subst up_loop.simps) simp
  next
    case True
    from up_step(1) [OF "1.prems"(1-7) True "1.prems"(9)]
    have "up_inv a b cmp ins delta p (k + 1) (snake_step a b cmp ins del k st)" .
    from "1.IH" [OF True "1.prems"(1-6) _ _ this] "1.prems"(7) True
    have "up_inv a b cmp ins delta p delta
        (up_loop a b cmp ins del delta (k + 1) (snake_step a b cmp ins del k st))" by simp
    with True show ?thesis by (subst up_loop.simps) simp
  qed
qed

lemma down_loop_inv:
  assumes "ins \<noteq> Equal" "del \<noteq> Equal" "del \<noteq> ins"
    and "delta = int (length b) - int (length a)" "0 \<le> delta" "0 \<le> p"
    and "delta \<le> k" "k \<le> delta + p"
    and "down_inv a b cmp ins delta p k st"
  shows "down_inv a b cmp ins delta p delta (down_loop a b cmp ins del delta k st)"
  using assms
proof (induction a b cmp ins del delta k st rule: down_loop.induct)
  case (1 a b cmp ins del delta k st)
  show ?case
  proof (cases "k > delta")
    case False
    with "1.prems"(7) have "k = delta" by simp
    with "1.prems"(9) show ?thesis by (subst down_loop.simps) simp
  next
    case True
    from down_step(1) [OF "1.prems"(1-6) True "1.prems"(8,9)]
    have "down_inv a b cmp ins delta p (k - 1) (snake_step a b cmp ins del k st)" .
    from "1.IH" [OF True "1.prems"(1-6) _ _ this] "1.prems"(8) True
    have "down_inv a b cmp ins delta p delta
        (down_loop a b cmp ins del delta (k - 1) (snake_step a b cmp ins del k st))" by simp
    with True show ?thesis by (subst down_loop.simps) simp
  qed
qed

lemma up_to_down:
  assumes "up_inv a b cmp ins delta p delta st"
  shows "down_inv a b cmp ins delta p (delta + p) st"
  unfolding down_inv_def
proof (intro conjI)
  from assms have "base_inv a b cmp ins ({- p..<delta} \<union> Old delta p) {delta..} st"
    by (simp add: up_inv_def)
  then show "base_inv a b cmp ins ({- p..<delta} \<union> {delta + p<..delta + p} \<union> Old delta p)
      {delta..delta + p} st"
    by (rule base_inv_weaken) auto
  from assms show "chain_up (snd st) (- p) (delta - 1)" by (simp add: up_inv_def)
  show "chain_down (snd st) (delta + p + 1) (delta + p)" by (simp add: chain_down_def)
qed

lemma ses_round_inv:
  assumes tok: "ins \<noteq> Equal" "del \<noteq> Equal" "del \<noteq> ins"
    and delta: "delta = int (length b) - int (length a)" "0 \<le> delta" and p: "0 \<le> p"
    and inv: "up_inv a b cmp ins delta p (- p) st"
  shows "after_inv a b cmp ins delta p (ses_round a b cmp ins del p st)"
proof -
  define st1 where "st1 = up_loop a b cmp ins del delta (- p) st"
  define st2 where "st2 = down_loop a b cmp ins del delta (delta + p) st1"
  have round: "ses_round a b cmp ins del p st = snake_step a b cmp ins del delta st2"
    by (simp add: ses_round_def Let_def st1_def st2_def delta(1))
  have "- p \<le> delta" using delta(2) p by simp
  from up_loop_inv [OF tok delta p _ this inv]
  have u: "up_inv a b cmp ins delta p delta st1" by (simp add: st1_def)
  from down_loop_inv [OF tok delta p _ _ up_to_down [OF u]] p
  have d: "down_inv a b cmp ins delta p delta st2" by (simp add: st2_def)
  from final_step(1) [OF tok delta p d] round show ?thesis by simp
qed

lemma chain_up_le:
  assumes "chain_up fp lo hi" "\<forall>j. lo \<le> j \<and> j \<le> hi \<longrightarrow> fp j \<noteq> None" "lo \<le> j" "j \<le> hi"
  shows "\<exists>y yh. fp j = Some y \<and> fp hi = Some yh \<and> y + (hi - j) \<le> yh"
  using assms(3,4)
proof (induction "nat (hi - j)" arbitrary: j)
  case 0
  then have "j = hi" by simp
  with assms(2) "0.prems" show ?case by auto
next
  case (Suc d)
  then have d: "d = nat (hi - (j + 1))" "lo \<le> j + 1" "j + 1 \<le> hi" by linarith+
  from Suc.hyps(1) [OF d] obtain y' yh where
    y': "fp (j + 1) = Some y'" "fp hi = Some yh" "y' + (hi - (j + 1)) \<le> yh" by blast
  from assms(2) Suc.prems obtain y where y: "fp j = Some y" by auto
  have "lo \<le> j \<and> j < hi" using Suc.prems(1) d(3) by simp
  with assms(1) y y'(1) have "y + 1 \<le> y'"
    unfolding chain_up_def by blast
  with y y' show ?case by auto
qed

lemma chain_down_le:
  assumes "chain_down fp lo hi" "\<forall>j. lo \<le> j \<and> j \<le> hi \<longrightarrow> fp j \<noteq> None" "lo \<le> j" "j \<le> hi"
  shows "\<exists>y yl. fp j = Some y \<and> fp lo = Some yl \<and> y \<le> yl"
  using assms(3,4)
proof (induction "nat (j - lo)" arbitrary: j)
  case 0
  then have "j = lo" by simp
  with assms(2) "0.prems" show ?case by auto
next
  case (Suc d)
  then have d: "d = nat (j - 1 - lo)" "lo \<le> j - 1" "j - 1 \<le> hi" by linarith+
  from Suc.hyps(1) [OF d] obtain y' yl where
    y': "fp (j - 1) = Some y'" "fp lo = Some yl" "y' \<le> yl" by blast
  from assms(2) Suc.prems obtain y where y: "fp j = Some y" by auto
  have "lo \<le> j - 1 \<and> j - 1 < hi" using d(2) Suc.prems(2) by simp
  moreover have "fp (j - 1 + 1) = Some y" using y by simp
  ultimately have "y \<le> y'" using assms(1) y'(1) unfolding chain_down_def by blast
  with y y' show ?case by auto
qed

lemma after_inv_bounds:
  assumes delta: "delta = int (length b) - int (length a)" "0 \<le> delta" and p: "0 \<le> p"
    and inv: "after_inv a b cmp ins delta p (es, fp)"
  obtains y s where "fp delta = Some y" "delta + p \<le> y" "y \<le> int (length b)"
    "es delta = Some (ins # s)"
    "valid_script cmp ins s (take (nat (y - delta)) a) (take (nat y) b)"
proof -
  from inv have b: "base_inv a b cmp ins {- p..delta + p} {} (es, fp)"
    and chd: "chain_down fp delta (delta + p)"
    by (simp_all add: after_inv_def)
  from b have dom: "\<And>j. (fp j \<noteq> None) = (j \<in> {- p..delta + p})"
    and gd: "\<And>j y. fp j = Some y \<Longrightarrow> good a b cmp ins es j y"
    by (auto simp: base_inv_def)
  have "\<forall>j. delta \<le> j \<and> j \<le> delta + p \<longrightarrow> fp j \<noteq> None"
    using dom delta(2) p by auto
  from chain_down_le [OF chd this, of "delta + p"] p obtain y yl where
    y: "fp (delta + p) = Some y" "fp delta = Some yl" "y \<le> yl" by auto
  from gd [OF y(1)] have "delta + p \<le> y" by (simp add: good_def)
  with y(3) have 1: "delta + p \<le> yl" by simp
  from gd [OF y(2)] obtain s where "yl \<le> int (length b)" "es delta = Some (ins # s)"
    "valid_script cmp ins s (take (nat (yl - delta)) a) (take (nat yl) b)"
    by (auto simp: good_def)
  with that [OF y(2) 1] show thesis by blast
qed

lemma after_inv_next:
  assumes delta: "delta = int (length b) - int (length a)" "0 \<le> delta" and p: "0 \<le> p"
    and inv: "after_inv a b cmp ins delta p (es, fp)"
    and cont: "fp delta \<noteq> Some (int (length b))"
  shows "up_inv a b cmp ins delta (p + 1) (- (p + 1)) (es, fp)"
proof -
  from inv have b: "base_inv a b cmp ins {- p..delta + p} {} (es, fp)"
    and chu: "chain_up fp (- p) delta"
    and chd: "chain_down fp delta (delta + p)"
    by (simp_all add: after_inv_def)
  from b have dom: "\<And>j. (fp j \<noteq> None) = (j \<in> {- p..delta + p})"
    and esn: "\<And>j. fp j = None \<Longrightarrow> es j = None"
    and gd: "\<And>j y. fp j = Some y \<Longrightarrow> good a b cmp ins es j y"
    by (auto simp: base_inv_def)
  from after_inv_bounds [OF delta p inv] obtain yd where
    yd: "fp delta = Some yd" "yd \<le> int (length b)" by blast
  with cont have ydn: "yd < int (length b)" by simp
  have defu: "\<forall>j. - p \<le> j \<and> j \<le> delta \<longrightarrow> fp j \<noteq> None" using dom p by auto
  have defd: "\<forall>j. delta \<le> j \<and> j \<le> delta + p \<longrightarrow> fp j \<noteq> None" using dom delta(2) by auto
  have strict: "y - j < int (length a) \<and> y < int (length b)" if h: "fp j = Some y" for j y
  proof -
    from h dom [of j] have j: "- p \<le> j" "j \<le> delta + p" by auto
    show ?thesis
    proof (cases "j \<le> delta")
      case True
      from chain_up_le [OF chu defu j(1) True] h yd(1) have "y + (delta - j) \<le> yd" by simp
      with ydn True delta(1) show ?thesis by simp
    next
      case False
      then have "delta \<le> j" by simp
      from chain_down_le [OF chd defd this j(2)] h yd(1) have "y \<le> yd" by simp
      with ydn False delta(1) show ?thesis by simp
    qed
  qed
  have "base_inv a b cmp ins ({- (p + 1)..<- (p + 1)} \<union> Old delta (p + 1)) {- (p + 1)..} (es, fp)"
    unfolding base_inv_def
  proof (intro conjI allI impI)
    fix j show "(snd (es, fp) j \<noteq> None) = (j \<in> {- (p + 1)..<- (p + 1)} \<union> Old delta (p + 1))"
      using dom [of j] p by (auto simp: Old_def)
  next
    fix j assume "snd (es, fp) j = None" then show "fst (es, fp) j = None" using esn by simp
  next
    fix j y assume "snd (es, fp) j = Some y"
    then show "good a b cmp ins (fst (es, fp)) j y" using gd by simp
  next
    fix j y assume "snd (es, fp) j = Some y"
    then show "y - j < int (length a)" "y < int (length b)" using strict [of j y] by simp_all
  qed
  moreover have "chain_up fp (- (p + 1)) (- (p + 1) - 1)" by (simp add: chain_up_def)
  ultimately show ?thesis by (simp add: up_inv_def)
qed

lemma ses_loop_correct:
  assumes tok: "ins \<noteq> Equal" "del \<noteq> Equal" "del \<noteq> ins"
    and len: "length a \<le> length b" and p: "0 \<le> p"
    and inv: "up_inv a b cmp ins (int (length b) - int (length a)) p (- p) st"
  shows "\<exists>s. ses_loop a b cmp ins del p st = Some (ins # s) \<and> valid_script cmp ins s a b"
  using p inv
proof (induction "nat (int (length a) - p)" arbitrary: p st rule: less_induct)
  case less
  define delta where "delta = int (length b) - int (length a)"
  have delta: "delta = int (length b) - int (length a)" "0 \<le> delta"
    using len by (simp_all add: delta_def)
  define st' where "st' = ses_round a b cmp ins del p st"
  obtain es fp where st': "st' = (es, fp)" by (cases st')
  from less.prems(2) have "up_inv a b cmp ins delta p (- p) st" by (simp add: delta_def)
  from ses_round_inv [OF tok delta less.prems(1) this]
  have a: "after_inv a b cmp ins delta p (es, fp)" by (simp add: st'_def [symmetric] st')
  from after_inv_bounds [OF delta less.prems(1) a] obtain y s where
    y: "fp delta = Some y" "delta + p \<le> y" "y \<le> int (length b)" "es delta = Some (ins # s)"
       "valid_script cmp ins s (take (nat (y - delta)) a) (take (nat y) b)" by blast
  show ?case
  proof (cases "y = int (length b)")
    case True
    then have "nat (y - delta) = length a" "nat y = length b" by (simp_all add: delta_def)
    with y(5) have "valid_script cmp ins s a b" by simp
    moreover have "ses_loop a b cmp ins del p st = Some (ins # s)"
      using True y(1,4) st'
      by (subst ses_loop.simps) (simp add: Let_def st'_def [symmetric] delta_def [symmetric])
    ultimately show ?thesis by blast
  next
    case False
    with y(1) have cont: "fp delta \<noteq> Some (int (length b))" by simp
    have eq: "ses_loop a b cmp ins del p st = ses_loop a b cmp ins del (p + 1) st'"
      using cont st'
      by (subst ses_loop.simps) (simp add: Let_def st'_def [symmetric] delta_def [symmetric])
    from False y(2,3) have "p < int (length a)" by (simp add: delta_def)
    with less.prems(1) have m: "nat (int (length a) - (p + 1)) < nat (int (length a) - p)"
      by simp
    from after_inv_next [OF delta less.prems(1) a cont]
    have "up_inv a b cmp ins (int (length b) - int (length a)) (p + 1) (- (p + 1)) st'"
      by (simp add: st' delta_def)
    from less.hyps [OF m _ this] less.prems(1) eq show ?thesis by simp
  qed
qed

lemma ses_search_correct:
  assumes "ins \<noteq> Equal" "del \<noteq> Equal" "del \<noteq> ins" "length a \<le> length b"
  shows "\<exists>s. ses_search a b cmp ins del = Some (ins # s) \<and> valid_script cmp ins s a b"
proof -
  have "base_inv a b cmp ins ({- 0..<- 0} \<union> Old (int (length b) - int (length a)) 0) {- 0..}
      (Map.empty, Map.empty)"
    by (simp add: base_inv_def Old_def)
  then have "up_inv a b cmp ins (int (length b) - int (length a)) 0 (- 0) (Map.empty, Map.empty)"
    by (simp add: up_inv_def chain_up_def)
  from ses_loop_correct [OF assms _ this] show ?thesis by (simp add: ses_search_def)
qed

section \<open>The dispatcher\<close>

lemma strict_eq_flip: "(\<lambda>x y. strict_eq y x) = (strict_eq :: 'a cmp)"
  by (auto simp: strict_eq_def fun_eq_iff)

lemma diff_big:
  "big a b \<Longrightarrow> diff a b cmp_opt =
     Some (changeIndexesToAtomicChanges
        (findChangeBoundaryIndexes a b (case cmp_opt of Some c \<Rightarrow> c | None \<Rightarrow> strict_eq)) (length b))"
  by (simp add: diff_def big_def fastDiff_def Let_def)

lemma diff_small:
  "\<not> big a b \<Longrightarrow> diff a b cmp_opt =
     (if length b < length a
      then map_option (drop 1)
        (ses_search b a (case cmp_opt of Some c \<Rightarrow> c | None \<Rightarrow> strict_eq) Delete Insert)
      else map_option (drop 1)
        (ses_search a b (case cmp_opt of Some c \<Rightarrow> c | None \<Rightarrow> strict_eq) Insert Delete))"
  by (simp add: diff_def big_def Let_def)

lemma diff_valid:
  "\<exists>s. diff a b cmp_opt = Some s
     \<and> (let cmp = (case cmp_opt of Some c \<Rightarrow> c | None \<Rightarrow> strict_eq)
        in if \<not> big a b \<and> length b < length a
           then valid_script (\<lambda>x y. cmp y x) Insert s a b
           else valid_script cmp Insert s a b)"
proof -
  define cmp where "cmp = (case cmp_opt of Some c \<Rightarrow> c | None \<Rightarrow> (strict_eq :: 'a cmp))"
  show ?thesis
  proof (cases "big a b")
    case True
    with fast_stream_valid [of cmp a b] diff_big [OF True, of cmp_opt] show ?thesis
      by (simp add: cmp_def)
  next
    case False
    show ?thesis
    proof (cases "length b < length a")
      case True
      then have "length b \<le> length a" by simp
      from ses_search_correct [of Delete Insert b a cmp, OF _ _ _ this] obtain s where
        s: "ses_search b a cmp Delete Insert = Some (Delete # s)" "valid_script cmp Delete s b a"
        by auto
      from s(2) have "valid_script (\<lambda>x y. cmp y x) Insert s a b" by (simp add: valid_script_swap)
      with s(1) True False diff_small [OF False, of cmp_opt] show ?thesis
        by (simp add: cmp_def)
    next
      case le: False
      then have "length a \<le> length b" by simp
      from ses_search_correct [of Insert Delete a b cmp, OF _ _ _ this] obtain s where
        s: "ses_search a b cmp Insert Delete = Some (Insert # s)" "valid_script cmp Insert s a b"
        by auto
      with le False diff_small [OF False, of cmp_opt] show ?thesis
        by (simp add: cmp_def)
    qed
  qed
qed

lemma diff_default_valid:
  "\<exists>s. diff a b None = Some s \<and> valid_script strict_eq Insert s a b"
  using diff_valid [of a b None] by (auto simp: Let_def strict_eq_flip split: if_splits)

section \<open>Identical inputs\<close>

lemma slide_identical:
  assumes "NaN \<notin> set a"
  shows "slide a a strict_eq 0 0 s = (s @ replicate (length a) Equal, int (length a))"
proof -
  from slide_spec [of a a strict_eq 0 0 s] obtain j where
    j: "slide a a strict_eq 0 0 s = (s @ replicate j Equal, 0 + int j)"
       "\<forall>i<j. 0 + int i < int (length a) \<and> 0 + int i < int (length a)
            \<and> strict_eq (js_nth a (0 + int i)) (js_nth a (0 + int i))"
       "\<not> (0 + int j < int (length a) \<and> 0 + int j < int (length a)
            \<and> strict_eq (js_nth a (0 + int j)) (js_nth a (0 + int j)))"
    by blast
  have "length a \<le> j"
  proof (rule ccontr)
    assume "\<not> length a \<le> j"
    then have lt: "j < length a" by simp
    then have "a ! j \<in> set a" by simp
    with assms have "a ! j \<noteq> NaN" by metis
    with lt j(3) show False by (simp add: strict_eq_def js_nth_nat)
  qed
  moreover have "j \<le> length a"
  proof (cases j)
    case 0
    then show ?thesis by simp
  next
    case (Suc j')
    with j(2) have "int j' < int (length a)" by simp
    with Suc show ?thesis by simp
  qed
  ultimately have "j = length a" by simp
  with j(1) show ?thesis by simp
qed

lemma ses_search_identical:
  assumes "NaN \<notin> set a"
  shows "ses_search a a strict_eq ins del = Some (ins # replicate (length a) Equal)"
proof -
  have up: "up_loop a a strict_eq ins del 0 0 (Map.empty, Map.empty) = (Map.empty, Map.empty)"
    by (subst up_loop.simps) simp
  have down: "down_loop a a strict_eq ins del 0 0 (Map.empty, Map.empty) = (Map.empty, Map.empty)"
    by (subst down_loop.simps) simp
  have step: "snake_step a a strict_eq ins del 0 (Map.empty, Map.empty)
      = ([0 \<mapsto> ins # replicate (length a) Equal], [0 \<mapsto> int (length a)])"
    by (simp add: snake_step_def snake_def Let_def slide_identical [OF assms])
  have round: "ses_round a a strict_eq ins del 0 (Map.empty, Map.empty)
      = ([0 \<mapsto> ins # replicate (length a) Equal], [0 \<mapsto> int (length a)])"
    by (simp add: ses_round_def Let_def up down step)
  show ?thesis
    unfolding ses_search_def
    by (subst ses_loop.simps) (simp add: round Let_def)
qed

lemma diff_identical_small:
  "\<not> big a a \<Longrightarrow> NaN \<notin> set a \<Longrightarrow> diff a a None = Some (replicate (length a) Equal)"
  by (simp add: diff_small ses_search_identical)

lemma ffdi_identical:
  assumes "Undefined \<notin> set a" "NaN \<notin> set a"
  shows "findFirstDifferenceIndex a a strict_eq = - 1"
proof (rule ccontr)
  assume "findFirstDifferenceIndex a a strict_eq \<noteq> - 1"
  from ffdi_some [OF this] obtain r where
    "r < max (length a) (length a)" "differs strict_eq (js_nth a (int r)) (js_nth a (int r))"
    by blast
  with assms show False
    by (auto simp: differs_def js_nth_nat strict_eq_def dest: nth_mem)
qed

lemma boundary_identical:
  "Undefined \<notin> set a \<Longrightarrow> NaN \<notin> set a \<Longrightarrow> findChangeBoundaryIndexes a a strict_eq
     = \<lparr>firstIndex = - 1, lastIndexOld = - 1, lastIndexNew = - 1\<rparr>"
  by (simp add: findChangeBoundaryIndexes_def ffdi_identical Let_def)

lemma diff_identical_big:
  "big a a \<Longrightarrow> Undefined \<notin> set a \<Longrightarrow> NaN \<notin> set a \<Longrightarrow> diff a a None = Some (replicate (length a) Equal)"
  by (simp add: diff_big boundary_identical changeIndexesToAtomicChanges_def)

section \<open>Patch lists\<close>

lemma dtc_equal_run:
  "foldl (dtc_step output) ([], i, None) (replicate n Equal) = ([], i + int n, None)"
  by (induction n arbitrary: i) (simp_all add: add.assoc)

lemma diffToChanges_equal_run: "diffToChanges (replicate n Equal) output = []"
  by (simp add: diffToChanges_def dtc_equal_run)

lemma pushLast_nontrivial: "dtc_nontrivial st \<Longrightarrow> dtc_nontrivial (pushLast st)"
  by (cases st rule: pushLast.cases) (simp_all add: dtc_nontrivial_def)

lemma dtc_step_nontrivial: "dtc_nontrivial st \<Longrightarrow> dtc_nontrivial (dtc_step output st t)"
proof -
  assume a: "dtc_nontrivial st"
  obtain cs i l where st: "st = (cs, i, l)" by (cases st)
  obtain cs' i' l' where p: "pushLast st = (cs', i', l')" by (cases "pushLast st")
  from pushLast_nontrivial [OF a] p have cs': "list_all nontrivial cs'"
    by (simp add: dtc_nontrivial_def)
  show ?thesis
  proof (cases t)
    case Equal
    with pushLast_nontrivial [OF a] p show ?thesis
      by (simp add: dtc_nontrivial_def)
  next
    case Insert
    show ?thesis
    proof (cases l)
      case None
      with st Insert a show ?thesis by (simp add: dtc_nontrivial_def)
    next
      case (Some c)
      with st Insert a show ?thesis by (cases c) (simp_all add: dtc_nontrivial_def)
    qed
  next
    case Delete
    show ?thesis
    proof (cases l)
      case None
      with st Delete a show ?thesis by (simp add: dtc_nontrivial_def)
    next
      case (Some c)
      with st Delete a show ?thesis by (cases c) (simp_all add: dtc_nontrivial_def)
    qed
  qed
qed

lemma dtc_fold_nontrivial:
  "dtc_nontrivial st \<Longrightarrow> dtc_nontrivial (foldl (dtc_step output) st s)"
  by (induction s arbitrary: st) (simp_all add: dtc_step_nontrivial)

lemma diffToChanges_nontrivial: "list_all nontrivial (diffToChanges s output)"
proof -
  have "dtc_nontrivial (([], 0, None) :: 'a dtc_state)" by (simp add: dtc_nontrivial_def)
  from pushLast_nontrivial [OF dtc_fold_nontrivial [OF this]]
  have "dtc_nontrivial (pushLast (foldl (dtc_step output) ([], 0, None) s))" .
  then show ?thesis
    by (cases "pushLast (foldl (dtc_step output) ([], 0, None) s)")
       (simp add: diffToChanges_def dtc_nontrivial_def)
qed

lemma changeIndexesToChanges_nontrivial:
  "list_all nontrivial (changeIndexesToChanges b (findChangeBoundaryIndexes a b cmp))"
proof -
  from boundary_cases [of a b cmp] show ?thesis
  proof (elim disjE conjE exE)
    assume "findChangeBoundaryIndexes a b cmp
        = \<lparr>firstIndex = - 1, lastIndexOld = - 1, lastIndexNew = - 1\<rparr>"
    then show ?thesis by (simp add: changeIndexesToChanges_def)
  next
    fix r q
    assume h: "findChangeBoundaryIndexes a b cmp =
          \<lparr>firstIndex = int r, lastIndexOld = int (length a) - int q,
           lastIndexNew = int (length b) - int q\<rparr>"
      "r + q \<le> length a" "r + q \<le> length b"
    have "int (length b) - int q = int (length b - q)" using h(3) by simp
    then have sl: "js_slice b (int r) (int (length b) - int q) = take (length b - q - r) (drop r b)"
      by (simp only: js_slice_nat)
    have "0 < int (length b) - int q - int r \<Longrightarrow> take (length b - q - r) (drop r b) \<noteq> []"
      using h(3) by auto
    with h(1) sl show ?thesis by (simp add: changeIndexesToChanges_def)
  qed
qed

lemma fastDiff_identical_changes:
  "Undefined \<notin> set a \<Longrightarrow> NaN \<notin> set a \<Longrightarrow> fastDiff a a strict_eq False = Inr []"
  by (simp add: fastDiff_def boundary_identical changeIndexesToChanges_def)

section \<open>Paths in the edit graph\<close>

lemma dels_simps [simp]:
  "dels ins [] = 0"
  "dels ins (s @ s') = dels ins s + dels ins s'"
  "dels ins (t # s) = (if t \<noteq> Equal \<and> t \<noteq> ins then 1 else 0) + dels ins s"
  "dels ins (replicate e Equal) = 0"
  by (simp_all add: dels_def)

lemma script_split_last:
  "(\<exists>e. s = replicate e Equal) \<or> (\<exists>s0 t e. s = s0 @ t # replicate e Equal \<and> t \<noteq> Equal)"
proof (induction s rule: rev_induct)
  case Nil
  have "[] = replicate 0 Equal" by simp
  then show ?case by blast
next
  case (snoc t s)
  show ?case
  proof (cases "t = Equal")
    case False
    have "s @ [t] = s @ t # replicate 0 Equal" by simp
    with False show ?thesis by blast
  next
    case True
    from snoc.IH show ?thesis
    proof (elim disjE exE conjE)
      fix e assume "s = replicate e Equal"
      then have "s @ [t] = replicate (Suc e) Equal"
        using True by (simp add: replicate_append_same)
      then show ?thesis by blast
    next
      fix s0 t' e assume h: "s = s0 @ t' # replicate e Equal" "t' \<noteq> Equal"
      then have "s @ [t] = s0 @ t' # replicate (Suc e) Equal"
        using True by (simp add: replicate_append_same)
      with h(2) show ?thesis by blast
    qed
  qed
qed

lemma valid_script_append_split:
  "valid_script cmp ins (s1 @ s2) A B \<Longrightarrow>
   \<exists>i j. i \<le> length A \<and> j \<le> length B \<and> valid_script cmp ins s1 (take i A) (take j B)
     \<and> valid_script cmp ins s2 (drop i A) (drop j B)"
proof (induction s1 arbitrary: A B)
  case Nil
  then have "valid_script cmp ins [] (take 0 A) (take 0 B) \<and> valid_script cmp ins s2 (drop 0 A) (drop 0 B)"
    by simp
  then show ?case by (intro exI [of _ 0]) simp
next
  case (Cons t s1)
  consider "t = Equal" | "t \<noteq> Equal" "t = ins" | "t \<noteq> Equal" "t \<noteq> ins" by blast
  then show ?case
  proof cases
    case 1
    with Cons.prems obtain x A' y B' where
      e: "A = x # A'" "B = y # B'" "cmp x y" "valid_script cmp ins (s1 @ s2) A' B'"
      by (auto simp: valid_script_Equal simp del: valid_script.simps)
    from Cons.IH [OF e(4)] obtain i j where
      ij: "i \<le> length A'" "j \<le> length B'" "valid_script cmp ins s1 (take i A') (take j B')"
        "valid_script cmp ins s2 (drop i A') (drop j B')" by blast
    have "valid_script cmp ins (t # s1) (take (Suc i) A) (take (Suc j) B)"
      using 1 e ij(3) by (simp add: valid_script_Equal del: valid_script.simps)
    with e ij show ?thesis
      by (intro exI [of _ "Suc i"] exI [of _ "Suc j"]) simp
  next
    case 2
    with Cons.prems obtain y B' where
      e: "B = y # B'" "valid_script cmp ins (s1 @ s2) A B'"
      by (auto simp: valid_script_ins simp del: valid_script.simps)
    from Cons.IH [OF e(2)] obtain i j where
      ij: "i \<le> length A" "j \<le> length B'" "valid_script cmp ins s1 (take i A) (take j B')"
        "valid_script cmp ins s2 (drop i A) (drop j B')" by blast
    have "valid_script cmp ins (t # s1) (take i A) (take (Suc j) B)"
      using 2 e ij(3) by (simp add: valid_script_ins del: valid_script.simps)
    with e ij show ?thesis
      by (intro exI [of _ i] exI [of _ "Suc j"]) simp
  next
    case 3
    with Cons.prems obtain x A' where
      e: "A = x # A'" "valid_script cmp ins (s1 @ s2) A' B"
      by (auto simp: valid_script_del simp del: valid_script.simps)
    from Cons.IH [OF e(2)] obtain i j where
      ij: "i \<le> length A'" "j \<le> length B" "valid_script cmp ins s1 (take i A') (take j B)"
        "valid_script cmp ins s2 (drop i A') (drop j B)" by blast
    have "valid_script cmp ins (t # s1) (take (Suc i) A) (take j B)"
      using 3 e ij(3) by (simp add: valid_script_del del: valid_script.simps)
    with e ij show ?thesis
      by (intro exI [of _ "Suc i"] exI [of _ j]) simp
  qed
qed

lemma valid_equal_run_D:
  "valid_script cmp ins (replicate e Equal) A B \<Longrightarrow>
   length A = e \<and> length B = e \<and> (\<forall>u<e. cmp (A ! u) (B ! u))"
proof (induction e arbitrary: A B)
  case 0
  then show ?case by simp
next
  case (Suc e)
  then obtain x A' y B' where
    e: "A = x # A'" "B = y # B'" "cmp x y" "valid_script cmp ins (replicate e Equal) A' B'"
    by (auto simp: valid_script_Equal simp del: valid_script.simps)
  from Suc.IH [OF e(4)] have ih: "length A' = e" "length B' = e" "\<forall>u<e. cmp (A' ! u) (B' ! u)"
    by auto
  have "\<forall>u<Suc e. cmp (A ! u) (B ! u)"
  proof (intro allI impI)
    fix u assume "u < Suc e"
    then show "cmp (A ! u) (B ! u)" using e(1,2,3) ih(3) by (cases u) auto
  qed
  with e ih show ?case by simp
qed

lemma valid_script_dels:
  assumes "ins \<noteq> Equal" "valid_script cmp ins s A B"
  shows "int (dels ins s) = int (length A) - int (length B) + int (length (filter (\<lambda>t. t = ins) s))"
  using assms(2)
proof (induction s arbitrary: A B)
  case Nil
  then show ?case by simp
next
  case (Cons t s)
  consider "t = Equal" | "t \<noteq> Equal" "t = ins" | "t \<noteq> Equal" "t \<noteq> ins" by blast
  then show ?case
  proof cases
    case 1
    with Cons.prems obtain x A' y B' where
      e: "A = x # A'" "B = y # B'" "valid_script cmp ins s A' B'"
      by (auto simp: valid_script_Equal simp del: valid_script.simps)
    with Cons.IH [OF e(3)] 1 assms(1) show ?thesis by simp
  next
    case 2
    with Cons.prems obtain y B' where e: "B = y # B'" "valid_script cmp ins s A B'"
      by (auto simp: valid_script_ins simp del: valid_script.simps)
    with Cons.IH [OF e(2)] 2 show ?thesis by simp
  next
    case 3
    with Cons.prems obtain x A' where e: "A = x # A'" "valid_script cmp ins s A' B"
      by (auto simp: valid_script_del simp del: valid_script.simps)
    with Cons.IH [OF e(2)] 3 show ?thesis by simp
  qed
qed

text \<open>
  A path either consists of diagonal steps only, or has a last horizontal or vertical
  step that is followed by diagonal steps.
\<close>

lemma path_cases:
  assumes v: "valid_script cmp ins s (take x a) (take y b)"
    and le: "x \<le> length a" "y \<le> length b" and tok: "ins \<noteq> Equal"
  shows "(\<exists>e. s = replicate e Equal \<and> x = e \<and> y = e \<and> (\<forall>u<e. cmp (a ! u) (b ! u)))
    \<or> (\<exists>s0 i j e. s = s0 @ ins # replicate e Equal
          \<and> valid_script cmp ins s0 (take i a) (take j b)
          \<and> x = i + e \<and> y = j + 1 + e \<and> (\<forall>u<e. cmp (a ! (i + u)) (b ! (j + 1 + u))))
    \<or> (\<exists>s0 t i j e. s = s0 @ t # replicate e Equal \<and> t \<noteq> Equal \<and> t \<noteq> ins
          \<and> valid_script cmp ins s0 (take i a) (take j b)
          \<and> x = i + 1 + e \<and> y = j + e \<and> (\<forall>u<e. cmp (a ! (i + 1 + u)) (b ! (j + u))))"
proof -
  from script_split_last [of s] show ?thesis
  proof (elim disjE exE conjE)
    fix e assume s: "s = replicate e Equal"
    from valid_equal_run_D [OF v [unfolded s]] le
    have "x = e" "y = e" "\<forall>u<e. cmp (take x a ! u) (take y b ! u)" by auto
    then have "\<forall>u<e. cmp (a ! u) (b ! u)" by simp
    with s \<open>x = e\<close> \<open>y = e\<close> show ?thesis by blast
  next
    fix s0 t e assume s: "s = s0 @ t # replicate e Equal" and t: "t \<noteq> Equal"
    from valid_script_append_split [OF v [unfolded s]] le obtain i j where
      ij: "i \<le> x" "j \<le> y" "valid_script cmp ins s0 (take i (take x a)) (take j (take y b))"
        "valid_script cmp ins (t # replicate e Equal) (drop i (take x a)) (drop j (take y b))"
      by auto
    from ij(1,2,3) have v0: "valid_script cmp ins s0 (take i a) (take j b)"
      by (simp add: min_def)
    show ?thesis
    proof (cases "t = ins")
      case True
      with ij(4) tok obtain y0 B' where
        b: "drop j (take y b) = y0 # B'"
           "valid_script cmp ins (replicate e Equal) (drop i (take x a)) B'"
        by (auto simp: valid_script_ins simp del: valid_script.simps)
      from valid_equal_run_D [OF b(2)] have
        r: "length (drop i (take x a)) = e" "length B' = e"
           "\<forall>u<e. cmp (drop i (take x a) ! u) (B' ! u)" by auto
      from b(1) have "length (drop j (take y b)) = Suc (length B')" by simp
      with r(1,2) le ij(1,2) have xy: "x = i + e" "y = j + 1 + e" by auto
      from b(1) have B': "B' = drop (Suc j) (take y b)"
        by (metis drop_Suc list.sel(3) tl_drop)
      have "\<forall>u<e. cmp (a ! (i + u)) (b ! (j + 1 + u))"
      proof (intro allI impI)
        fix u assume u: "u < e"
        with r(3) have "cmp (drop i (take x a) ! u) (B' ! u)" by blast
        moreover have "drop i (take x a) ! u = a ! (i + u)" using u xy le by simp
        moreover have "B' ! u = b ! (j + 1 + u)" using u xy le B' by simp
        ultimately show "cmp (a ! (i + u)) (b ! (j + 1 + u))" by simp
      qed
      with s True v0 xy show ?thesis by blast
    next
      case False
      with ij(4) t obtain x0 A' where
        b: "drop i (take x a) = x0 # A'"
           "valid_script cmp ins (replicate e Equal) A' (drop j (take y b))"
        by (auto simp: valid_script_del simp del: valid_script.simps)
      from valid_equal_run_D [OF b(2)] have
        r: "length A' = e" "length (drop j (take y b)) = e"
           "\<forall>u<e. cmp (A' ! u) (drop j (take y b) ! u)" by auto
      from b(1) have "length (drop i (take x a)) = Suc (length A')" by simp
      with r(1,2) le ij(1,2) have xy: "x = i + 1 + e" "y = j + e" by auto
      from b(1) have A': "A' = drop (Suc i) (take x a)"
        by (metis drop_Suc list.sel(3) tl_drop)
      have "\<forall>u<e. cmp (a ! (i + 1 + u)) (b ! (j + u))"
      proof (intro allI impI)
        fix u assume u: "u < e"
        with r(3) have "cmp (A' ! u) (drop j (take y b) ! u)" by blast
        moreover have "drop j (take y b) ! u = b ! (j + u)" using u xy le by simp
        moreover have "A' ! u = a ! (i + 1 + u)" using u xy le A' by simp
        ultimately show "cmp (a ! (i + 1 + u)) (b ! (j + u))" by simp
      qed
      with s t False v0 xy show ?thesis by blast
    qed
  qed
qed

lemma slide_reach:
  assumes mx: "\<not> (v - k < int (length a) \<and> v < int (length b)
      \<and> cmp (js_nth a (v - k)) (js_nth b v))"
    and start: "int y0 \<le> v" and diag: "int y0 - int x0 = k"
    and matches: "\<forall>u<e. cmp (a ! (x0 + u)) (b ! (y0 + u))"
    and le: "x0 + e \<le> length a" "y0 + e \<le> length b"
  shows "int (y0 + e) \<le> v"
proof (rule ccontr)
  assume "\<not> int (y0 + e) \<le> v"
  then have lt: "v < int y0 + int e" by simp
  define u where "u = nat (v - int y0)"
  have u: "u < e" "v = int (y0 + u)" "v - k = int (x0 + u)"
    using lt start diag by (simp_all add: u_def)
  note mx' = mx [unfolded u(3)]
  note mx'' = mx' [unfolded u(2)]
  from matches u(1) have "cmp (a ! (x0 + u)) (b ! (y0 + u))" by blast
  moreover have "js_nth a (int (x0 + u)) = a ! (x0 + u)" "js_nth b (int (y0 + u)) = b ! (y0 + u)"
    using u(1) le js_nth_nat [of a "x0 + u"] js_nth_nat [of b "y0 + u"] by simp_all
  moreover have "int (x0 + u) < int (length a)" "int (y0 + u) < int (length b)"
    using u(1) le by simp_all
  ultimately show False using mx'' by (simp only: simp_thms)
qed

section \<open>Furthest points are furthest\<close>

lemma opt_atD:
  assumes "opt_at a b cmp ins delta fp q j" "x \<le> length a" "y \<le> length b" "int y - int x = j"
    "valid_script cmp ins s (take x a) (take y b)" "int (dels ins s) + max 0 (j - delta) \<le> q"
  obtains v where "fp j = Some v" "int y \<le> v"
  using assms unfolding opt_at_def by blast

lemma opt_at_mono:
  assumes "opt_at a b cmp ins delta fp q j" "q' \<le> q"
  shows "opt_at a b cmp ins delta fp q' j"
  unfolding opt_at_def
proof (intro allI impI, elim conjE)
  fix s x y
  assume h: "x \<le> length a" "y \<le> length b" "int y - int x = j"
    "valid_script cmp ins s (take x a) (take y b)" "int (dels ins s) + max 0 (j - delta) \<le> q'"
  from h(5) assms(2) have "int (dels ins s) + max 0 (j - delta) \<le> q" by simp
  from opt_atD [OF assms(1) h(1-4) this] show "\<exists>v. fp j = Some v \<and> int y \<le> v" by blast
qed

lemma opt_at_cong: "fp' j = fp j \<Longrightarrow> opt_at a b cmp ins delta fp' q j = opt_at a b cmp ins delta fp q j"
  unfolding opt_at_def by simp

lemma opt_at_vacuous:
  assumes "ins \<noteq> Equal" "q < 0 \<or> q < - j \<or> q < j - delta"
  shows "opt_at a b cmp ins delta fp q j"
  unfolding opt_at_def
proof (intro allI impI, elim conjE)
  fix s x y
  assume h: "x \<le> length a" "y \<le> length b" "int y - int x = j"
    "valid_script cmp ins s (take x a) (take y b)" "int (dels ins s) + max 0 (j - delta) \<le> q"
  from valid_script_dels [OF assms(1) h(4)] h(1,2)
  have "int (dels ins s) = int x - int y + int (length (filter (\<lambda>t. t = ins) s))" by simp
  then have "- j \<le> int (dels ins s)" using h(3) by simp
  with h(5) assms(2) have False by (auto simp: max_def split: if_splits)
  then show "\<exists>v. fp j = Some v \<and> int y \<le> v" ..
qed

lemma snake_ext:
  assumes tok: "ins \<noteq> Equal" "del \<noteq> Equal" "del \<noteq> ins"
    and delta: "0 \<le> delta" and p: "0 \<le> p"
    and res: "step_result a b cmp ins del k (es, fp) st'"
    and nonneg: "\<forall>v. snd st' k = Some v \<longrightarrow> 0 \<le> v"
    and ext: "ext_inv a b cmp ins delta p U (es, fp)"
    and req: "k \<le> delta \<longrightarrow> k - 1 \<in> U" "delta \<le> k \<longrightarrow> k + 1 \<in> U"
      "delta < k \<longrightarrow> k - 1 \<notin> U" "k < delta \<longrightarrow> k + 1 \<notin> U"
  shows "ext_inv a b cmp ins delta p (insert k U) st'"
proof -
  from res obtain s yk e where
    r: "st' = (es(k \<mapsto> ins # s @ replicate e Equal), fp(k \<mapsto> yk))"
       "\<forall>l. fp (k - 1) = Some l \<longrightarrow> l + 1 \<le> yk"
       "\<forall>r. fp (k + 1) = Some r \<longrightarrow> r \<le> yk"
       "\<not> (yk - k < int (length a) \<and> yk < int (length b) \<and> cmp (js_nth a (yk - k)) (js_nth b yk))"
       "(fp (k - 1) = None \<and> fp (k + 1) = None \<and> k = 0 \<and> s = [])
           \<or> (\<exists>s0. es (k - 1) = Some (ins # s0) \<and> s = s0 @ [ins])
           \<or> (\<exists>s0. es (k + 1) = Some (ins # s0) \<and> s = s0 @ [del])"
    unfolding step_result_def fst_conv snd_conv by (elim exE conjE)
  from nonneg r(1) have yk0: "0 \<le> yk" by simp
  from ext have opt: "\<And>j. opt_at a b cmp ins delta fp (if j \<in> U then p else p - 1) j"
    and cost: "\<And>j s. es j = Some (ins # s)
        \<Longrightarrow> int (dels ins s) + max 0 (j - delta) \<le> (if j \<in> U then p else p - 1)"
    by (auto simp: ext_inv_def)
  \<comment> \<open>the neighbours at the levels that the step needs\<close>
  have optL: "opt_at a b cmp ins delta fp (if k \<le> delta then p else p - 1) (k - 1)"
    using opt [of "k - 1"] req(1) by (auto intro: opt_at_mono)
  have optR: "opt_at a b cmp ins delta fp (if delta \<le> k then p else p - 1) (k + 1)"
    using opt [of "k + 1"] req(2) by (auto intro: opt_at_mono)
  \<comment> \<open>the cost of the new script\<close>
  have c: "int (dels ins (s @ replicate e Equal)) + max 0 (k - delta) \<le> p"
  proof -
    from r(5) show ?thesis
    proof (elim disjE conjE exE)
      assume "k = 0" "s = []"
      with delta p show ?thesis by simp
    next
      fix s0 assume h: "es (k - 1) = Some (ins # s0)" "s = s0 @ [ins]"
      from cost [OF h(1)] req(3)
      have "int (dels ins s0) + max 0 (k - 1 - delta) \<le> (if delta < k then p - 1 else p)"
        by (auto split: if_splits)
      with h(2) tok show ?thesis by (auto simp: max_def split: if_splits)
    next
      fix s0 assume h: "es (k + 1) = Some (ins # s0)" "s = s0 @ [del]"
      from cost [OF h(1)] req(4)
      have "int (dels ins s0) + max 0 (k + 1 - delta) \<le> (if k < delta then p - 1 else p)"
        by (auto split: if_splits)
      with h(2) tok show ?thesis by (auto simp: max_def split: if_splits)
    qed
  qed
  \<comment> \<open>no path of cost at most \<open>p\<close> on diagonal \<open>k\<close> goes further than \<open>yk\<close>\<close>
  have o: "opt_at a b cmp ins delta (fp(k \<mapsto> yk)) p k"
    unfolding opt_at_def
  proof (intro allI impI, elim conjE)
    fix \<pi> x y
    assume h: "x \<le> length a" "y \<le> length b" "int y - int x = k"
      "valid_script cmp ins \<pi> (take x a) (take y b)" "int (dels ins \<pi>) + max 0 (k - delta) \<le> p"
    have "int y \<le> yk"
      using path_cases [OF h(4) h(1,2) tok(1)]
    proof (elim disjE exE conjE)
      fix e'
      assume c: "x = e'" "y = e'" "\<forall>u<e'. cmp (a ! u) (b ! u)"
      have "int (0 + e') \<le> yk"
      proof (rule slide_reach [where a = a and b = b and cmp = cmp and v = yk and k = k, OF r(4)])
        show "int 0 \<le> yk" using yk0 by simp
        show "int 0 - int 0 = k" using c h(3) by simp
        show "\<forall>u<e'. cmp (a ! (0 + u)) (b ! (0 + u))" using c(3) by simp
        show "0 + e' \<le> length a" "0 + e' \<le> length b" using c h(1,2) by simp_all
      qed
      with c show ?thesis by simp
    next
      fix s0 i j e'
      assume c: "\<pi> = s0 @ ins # replicate e' Equal"
        "valid_script cmp ins s0 (take i a) (take j b)"
        "x = i + e'" "y = j + 1 + e'" "\<forall>u<e'. cmp (a ! (i + u)) (b ! (j + 1 + u))"
      have d: "int j - int i = k - 1" using c(3,4) h(3) by simp
      have "int (dels ins s0) + max 0 (k - 1 - delta) \<le> (if k \<le> delta then p else p - 1)"
        using h(5) c(1) tok by (auto simp: max_def split: if_splits)
      from opt_atD [OF optL _ _ d c(2) this] c(3,4) h(1,2)
      obtain l where l: "fp (k - 1) = Some l" "int j \<le> l" by auto
      with r(2) have "int (j + 1) \<le> yk" by auto
      then have "int (j + 1 + e') \<le> yk"
      proof (rule slide_reach [where a = a and b = b and cmp = cmp and v = yk and k = k, OF r(4)])
        show "int (j + 1) - int i = k" using d by simp
        show "\<forall>u<e'. cmp (a ! (i + u)) (b ! (j + 1 + u))" by (rule c(5))
        show "i + e' \<le> length a" "j + 1 + e' \<le> length b" using c(3,4) h(1,2) by simp_all
      qed
      with c(4) show ?thesis by simp
    next
      fix s0 t i j e'
      assume c: "\<pi> = s0 @ t # replicate e' Equal" "t \<noteq> Equal" "t \<noteq> ins"
        "valid_script cmp ins s0 (take i a) (take j b)"
        "x = i + 1 + e'" "y = j + e'" "\<forall>u<e'. cmp (a ! (i + 1 + u)) (b ! (j + u))"
      have d: "int j - int i = k + 1" using c(5,6) h(3) by simp
      have "int (dels ins s0) + max 0 (k + 1 - delta) \<le> (if delta \<le> k then p else p - 1)"
        using h(5) c(1,2,3) by (auto simp: max_def split: if_splits)
      from opt_atD [OF optR _ _ d c(4) this] c(5,6) h(1,2)
      obtain r' where r': "fp (k + 1) = Some r'" "int j \<le> r'" by auto
      with r(3) have "int j \<le> yk" by auto
      then have "int (j + e') \<le> yk"
      proof (rule slide_reach [where a = a and b = b and cmp = cmp and v = yk and k = k, OF r(4)])
        show "int j - int (i + 1) = k" using d by simp
        show "\<forall>u<e'. cmp (a ! (i + 1 + u)) (b ! (j + u))" by (rule c(7))
        show "i + 1 + e' \<le> length a" "j + e' \<le> length b" using c(5,6) h(1,2) by simp_all
      qed
      with c(6) show ?thesis by simp
    qed
    then show "\<exists>v. (fp(k \<mapsto> yk)) k = Some v \<and> int y \<le> v" by simp
  qed
  show ?thesis
    unfolding ext_inv_def
  proof (intro conjI allI impI)
    fix j
    show "opt_at a b cmp ins delta (snd st') (if j \<in> insert k U then p else p - 1) j"
    proof (cases "j = k")
      case True
      with o r(1) show ?thesis by simp
    next
      case False
      then have "opt_at a b cmp ins delta (fp(k \<mapsto> yk)) (if j \<in> U then p else p - 1) j
          = opt_at a b cmp ins delta fp (if j \<in> U then p else p - 1) j"
        by (intro opt_at_cong) simp
      with opt [of j] False r(1) show ?thesis by simp
    qed
  next
    fix j s' assume h: "fst st' j = Some (ins # s')"
    show "int (dels ins s') + max 0 (j - delta) \<le> (if j \<in> insert k U then p else p - 1)"
    proof (cases "j = k")
      case True
      with h r(1) have "s' = s @ replicate e Equal" by simp
      with c True show ?thesis by simp
    next
      case False
      with h r(1) have "es j = Some (ins # s')" by simp
      from cost [OF this] False show ?thesis by simp
    qed
  qed
qed

lemma base_inv_nonneg: "base_inv a b cmp ins D S st \<Longrightarrow> snd st j = Some v \<Longrightarrow> 0 \<le> v"
  unfolding base_inv_def good_def by blast

lemma base_inv_undefined: "base_inv a b cmp ins D S st \<Longrightarrow> j \<notin> D \<Longrightarrow> fst st j = None"
  unfolding base_inv_def by blast

lemma ext_inv_add_outer:
  assumes "ext_inv a b cmp ins delta p U st" "ins \<noteq> Equal"
    and "\<forall>j\<in>V. (j < - p \<or> delta + p < j) \<and> fst st j = None"
  shows "ext_inv a b cmp ins delta p (U \<union> V) st"
  unfolding ext_inv_def
proof (intro conjI allI impI)
  fix j
  show "opt_at a b cmp ins delta (snd st) (if j \<in> U \<union> V then p else p - 1) j"
  proof (cases "j \<in> V")
    case True
    with assms(3) have "p < - j \<or> p < j - delta" by auto
    then have "opt_at a b cmp ins delta (snd st) p j"
      by (intro opt_at_vacuous [OF assms(2)]) auto
    with True show ?thesis by simp
  next
    case False
    with assms(1) show ?thesis by (auto simp: ext_inv_def)
  qed
next
  fix j s assume h: "fst st j = Some (ins # s)"
  with assms(3) have "j \<notin> V" by auto
  with assms(1) h show "int (dels ins s) + max 0 (j - delta) \<le> (if j \<in> U \<union> V then p else p - 1)"
    by (auto simp: ext_inv_def)
qed

lemma ext_inv_eq: "ext_inv a b cmp ins delta p U st \<Longrightarrow> U' = U \<Longrightarrow> ext_inv a b cmp ins delta p U' st"
  by simp

lemma up_loop_ext:
  assumes "ins \<noteq> Equal" "del \<noteq> Equal" "del \<noteq> ins"
    and "delta = int (length b) - int (length a)" "0 \<le> delta" "0 \<le> p" "- p \<le> k" "k \<le> delta"
    and "up_inv a b cmp ins delta p k st" "ext_inv a b cmp ins delta p {..<k} st"
  shows "ext_inv a b cmp ins delta p {..<delta} (up_loop a b cmp ins del delta k st)"
  using assms
proof (induction a b cmp ins del delta k st rule: up_loop.induct)
  case (1 a b cmp ins del delta k st)
  show ?case
  proof (cases "k < delta")
    case False
    with "1.prems"(8) have "k = delta" by simp
    with "1.prems"(10) show ?thesis by (subst up_loop.simps) simp
  next
    case True
    let ?st' = "snake_step a b cmp ins del k st"
    note s = up_step [OF "1.prems"(1-7) True "1.prems"(9)]
    obtain es fp where st: "st = (es, fp)" by (cases st)
    from s(1) have "\<forall>v. snd ?st' k = Some v \<longrightarrow> 0 \<le> v"
      unfolding up_inv_def using base_inv_nonneg by blast
    from snake_ext [OF "1.prems"(1-3,5,6) s(2) [unfolded st] this [unfolded st]
        "1.prems"(10) [unfolded st]] True
    have "ext_inv a b cmp ins delta p (insert k {..<k}) ?st'" by (simp add: st)
    then have "ext_inv a b cmp ins delta p {..<k + 1} ?st'"
      by (rule ext_inv_eq) auto
    from "1.IH" [OF True "1.prems"(1-6) _ _ s(1) this] "1.prems"(7) True
    have "ext_inv a b cmp ins delta p {..<delta}
        (up_loop a b cmp ins del delta (k + 1) ?st')" by simp
    with True show ?thesis by (subst up_loop.simps) simp
  qed
qed

lemma down_loop_ext:
  assumes "ins \<noteq> Equal" "del \<noteq> Equal" "del \<noteq> ins"
    and "delta = int (length b) - int (length a)" "0 \<le> delta" "0 \<le> p"
    and "delta \<le> k" "k \<le> delta + p"
    and "down_inv a b cmp ins delta p k st" "ext_inv a b cmp ins delta p ({..<delta} \<union> {k<..}) st"
  shows "ext_inv a b cmp ins delta p ({..<delta} \<union> {delta<..})
    (down_loop a b cmp ins del delta k st)"
  using assms
proof (induction a b cmp ins del delta k st rule: down_loop.induct)
  case (1 a b cmp ins del delta k st)
  show ?case
  proof (cases "k > delta")
    case False
    with "1.prems"(7) have "k = delta" by simp
    with "1.prems"(10) show ?thesis by (subst down_loop.simps) simp
  next
    case True
    let ?st' = "snake_step a b cmp ins del k st"
    note s = down_step [OF "1.prems"(1-6) True "1.prems"(8,9)]
    obtain es fp where st: "st = (es, fp)" by (cases st)
    from s(1) have "\<forall>v. snd ?st' k = Some v \<longrightarrow> 0 \<le> v"
      unfolding down_inv_def using base_inv_nonneg by blast
    from snake_ext [OF "1.prems"(1-3,5,6) s(2) [unfolded st] this [unfolded st]
        "1.prems"(10) [unfolded st]] True
    have "ext_inv a b cmp ins delta p (insert k ({..<delta} \<union> {k<..})) ?st'" by (simp add: st)
    then have "ext_inv a b cmp ins delta p ({..<delta} \<union> {k - 1<..}) ?st'"
      by (rule ext_inv_eq) auto
    from "1.IH" [OF True "1.prems"(1-6) _ _ s(1) this] "1.prems"(8) True
    have "ext_inv a b cmp ins delta p ({..<delta} \<union> {delta<..})
        (down_loop a b cmp ins del delta (k - 1) ?st')" by simp
    with True show ?thesis by (subst down_loop.simps) simp
  qed
qed

lemma ses_round_ext:
  assumes tok: "ins \<noteq> Equal" "del \<noteq> Equal" "del \<noteq> ins"
    and delta: "delta = int (length b) - int (length a)" "0 \<le> delta" and p: "0 \<le> p"
    and inv: "up_inv a b cmp ins delta p (- p) st"
    and ext: "ext_inv a b cmp ins delta p {} st"
  shows "ext_inv a b cmp ins delta p UNIV (ses_round a b cmp ins del p st)"
proof -
  define st1 where "st1 = up_loop a b cmp ins del delta (- p) st"
  define st2 where "st2 = down_loop a b cmp ins del delta (delta + p) st1"
  have round: "ses_round a b cmp ins del p st = snake_step a b cmp ins del delta st2"
    by (simp add: ses_round_def Let_def st1_def st2_def delta(1))
  have le: "- p \<le> delta" using delta(2) p by simp
  \<comment> \<open>the ascending loop\<close>
  have "\<forall>j\<in>{..<- p}. (j < - p \<or> delta + p < j) \<and> fst st j = None"
  proof
    fix j assume j: "j \<in> {..<- p}"
    then have "j \<notin> {- p..<- p} \<union> Old delta p" by (auto simp: Old_def)
    with inv have "fst st j = None" unfolding up_inv_def by (blast dest: base_inv_undefined)
    with j show "(j < - p \<or> delta + p < j) \<and> fst st j = None" by simp
  qed
  from ext_inv_add_outer [OF ext tok(1) this]
  have e0: "ext_inv a b cmp ins delta p {..<- p} st" by simp
  from up_loop_inv [OF tok delta p _ le inv]
  have u: "up_inv a b cmp ins delta p delta st1" by (simp add: st1_def)
  from up_loop_ext [OF tok delta p _ le inv e0]
  have e1: "ext_inv a b cmp ins delta p {..<delta} st1" by (simp add: st1_def)
  \<comment> \<open>the descending loop\<close>
  have "\<forall>j\<in>{delta + p<..}. (j < - p \<or> delta + p < j) \<and> fst st1 j = None"
  proof
    fix j assume j: "j \<in> {delta + p<..}"
    then have "j \<notin> {- p..<delta} \<union> Old delta p" using p by (auto simp: Old_def)
    with u have "fst st1 j = None" unfolding up_inv_def by (blast dest: base_inv_undefined)
    with j show "(j < - p \<or> delta + p < j) \<and> fst st1 j = None" by simp
  qed
  from ext_inv_add_outer [OF e1 tok(1) this]
  have e1': "ext_inv a b cmp ins delta p ({..<delta} \<union> {delta + p<..}) st1" .
  note d0 = up_to_down [OF u]
  from down_loop_inv [OF tok delta p _ _ d0] p
  have d: "down_inv a b cmp ins delta p delta st2" by (simp add: st2_def)
  from down_loop_ext [OF tok delta p _ _ d0 e1'] p
  have e2: "ext_inv a b cmp ins delta p ({..<delta} \<union> {delta<..}) st2" by (simp add: st2_def)
  \<comment> \<open>the target diagonal\<close>
  note f = final_step [OF tok delta p d]
  obtain es fp where st2: "st2 = (es, fp)" by (cases st2)
  let ?st' = "snake_step a b cmp ins del delta st2"
  from f(1) have "\<forall>v. snd ?st' delta = Some v \<longrightarrow> 0 \<le> v"
    unfolding after_inv_def using base_inv_nonneg by blast
  from snake_ext [OF tok delta(2) p f(2) [unfolded st2] this [unfolded st2] e2 [unfolded st2]]
  have "ext_inv a b cmp ins delta p (insert delta ({..<delta} \<union> {delta<..})) ?st'"
    by (simp add: st2)
  then have "ext_inv a b cmp ins delta p UNIV ?st'"
    by (rule ext_inv_eq) auto
  with round show ?thesis by simp
qed

lemma ext_inv_next: "ext_inv a b cmp ins delta p UNIV st \<Longrightarrow> ext_inv a b cmp ins delta (p + 1) {} st"
  by (simp add: ext_inv_def)

lemma ses_loop_minimal:
  assumes tok: "ins \<noteq> Equal" "del \<noteq> Equal" "del \<noteq> ins"
    and len: "length a \<le> length b" and p: "0 \<le> p"
    and inv: "up_inv a b cmp ins (int (length b) - int (length a)) p (- p) st"
    and ext: "ext_inv a b cmp ins (int (length b) - int (length a)) p {} st"
    and other: "valid_script cmp ins s' a b" "p \<le> int (dels ins s')"
  shows "\<exists>s. ses_loop a b cmp ins del p st = Some (ins # s) \<and> valid_script cmp ins s a b
    \<and> dels ins s \<le> dels ins s'"
  using p inv ext other(2)
proof (induction "nat (int (length a) - p)" arbitrary: p st rule: less_induct)
  case less
  define delta where "delta = int (length b) - int (length a)"
  have delta: "delta = int (length b) - int (length a)" "0 \<le> delta"
    using len by (simp_all add: delta_def)
  define st' where "st' = ses_round a b cmp ins del p st"
  obtain es fp where st': "st' = (es, fp)" by (cases st')
  from less.prems(2) have i: "up_inv a b cmp ins delta p (- p) st" by (simp add: delta_def)
  from less.prems(3) have e: "ext_inv a b cmp ins delta p {} st" by (simp add: delta_def)
  from ses_round_inv [OF tok delta less.prems(1) i]
  have a: "after_inv a b cmp ins delta p (es, fp)" by (simp add: st'_def [symmetric] st')
  from ses_round_ext [OF tok delta less.prems(1) i e]
  have x: "ext_inv a b cmp ins delta p UNIV (es, fp)" by (simp add: st'_def [symmetric] st')
  from after_inv_bounds [OF delta less.prems(1) a] obtain y s where
    y: "fp delta = Some y" "delta + p \<le> y" "y \<le> int (length b)" "es delta = Some (ins # s)"
       "valid_script cmp ins s (take (nat (y - delta)) a) (take (nat y) b)" by blast
  show ?case
  proof (cases "y = int (length b)")
    case True
    then have "nat (y - delta) = length a" "nat y = length b" by (simp_all add: delta_def)
    with y(5) have "valid_script cmp ins s a b" by simp
    moreover have "ses_loop a b cmp ins del p st = Some (ins # s)"
      using True y(1,4) st'
      by (subst ses_loop.simps) (simp add: Let_def st'_def [symmetric] delta_def [symmetric])
    moreover have "dels ins s \<le> dels ins s'"
    proof -
      from x have "\<And>j s. es j = Some (ins # s) \<Longrightarrow> int (dels ins s) + max 0 (j - delta) \<le> p"
        by (simp add: ext_inv_def)
      from this [OF y(4)] have "int (dels ins s) \<le> p" by simp
      with less.prems(4) show ?thesis by simp
    qed
    ultimately show ?thesis by blast
  next
    case False
    with y(1) have cont: "fp delta \<noteq> Some (int (length b))" by simp
    have eq: "ses_loop a b cmp ins del p st = ses_loop a b cmp ins del (p + 1) st'"
      using cont st'
      by (subst ses_loop.simps) (simp add: Let_def st'_def [symmetric] delta_def [symmetric])
    from False y(2,3) have "p < int (length a)" by (simp add: delta_def)
    with less.prems(1) have m: "nat (int (length a) - (p + 1)) < nat (int (length a) - p)"
      by simp
    have more: "p + 1 \<le> int (dels ins s')"
    proof (rule ccontr)
      assume "\<not> p + 1 \<le> int (dels ins s')"
      then have c: "int (dels ins s') + max 0 (delta - delta) \<le> p" by simp
      from x have o: "opt_at a b cmp ins delta fp p delta" by (auto simp: ext_inv_def)
      have v: "valid_script cmp ins s' (take (length a) a) (take (length b) b)"
        using other(1) by simp
      have d: "int (length b) - int (length a) = delta" by (simp add: delta_def)
      from opt_atD [OF o _ _ d v c] obtain v' where "fp delta = Some v'" "int (length b) \<le> v'"
        by auto
      with y(1,3) False show False by simp
    qed
    from after_inv_next [OF delta less.prems(1) a cont]
    have i': "up_inv a b cmp ins (int (length b) - int (length a)) (p + 1) (- (p + 1)) st'"
      by (simp add: st' delta_def)
    from ext_inv_next [OF x]
    have e': "ext_inv a b cmp ins (int (length b) - int (length a)) (p + 1) {} st'"
      by (simp add: st' delta_def)
    from less.hyps [OF m _ i' e' more] less.prems(1) eq show ?thesis by simp
  qed
qed

lemma ses_search_minimal:
  assumes "ins \<noteq> Equal" "del \<noteq> Equal" "del \<noteq> ins" "length a \<le> length b"
    and "valid_script cmp ins s' a b"
  shows "\<exists>s. ses_search a b cmp ins del = Some (ins # s) \<and> valid_script cmp ins s a b
    \<and> dels ins s \<le> dels ins s'"
proof -
  let ?delta = "int (length b) - int (length a)"
  have "base_inv a b cmp ins ({- 0..<- 0} \<union> Old ?delta 0) {- 0..} (Map.empty, Map.empty)"
    by (simp add: base_inv_def Old_def)
  then have i: "up_inv a b cmp ins ?delta 0 (- 0) (Map.empty, Map.empty)"
    by (simp add: up_inv_def chain_up_def)
  have "\<And>j. opt_at a b cmp ins ?delta Map.empty (0 - 1) j"
    by (rule opt_at_vacuous [OF assms(1)]) simp
  then have e: "ext_inv a b cmp ins ?delta 0 {} (Map.empty, Map.empty)"
    by (simp add: ext_inv_def)
  from ses_loop_minimal [OF assms(1-4) _ i e assms(5)] show ?thesis
    by (simp add: ses_search_def)
qed

section \<open>Minimal edit scripts\<close>

lemma apply_script_valid:
  "apply_script s a b = Some b \<longleftrightarrow> valid_script strict_eq Insert s a b"
proof (induction s a b rule: apply_script.induct)
  case (2 s x a y b)
  then show ?case by (auto simp: strict_eq_def)
qed (auto simp: strict_eq_def split: list.splits)

lemma edits_dels:
  assumes "ins \<noteq> Equal" "valid_script cmp ins s A B"
  shows "int (edits s) = 2 * int (dels ins s) + int (length B) - int (length A)"
proof -
  have "edits s = length (filter (\<lambda>t. t = ins) s) + dels ins s"
    using assms(1) by (induction s) (auto simp: edits_def dels_def)
  with valid_script_dels [OF assms] show ?thesis by simp
qed

lemma diff_small_minimal:
  assumes small: "\<not> big a b" and other: "valid_script strict_eq Insert s' a b"
  shows "\<exists>s. diff a b None = Some s \<and> valid_script strict_eq Insert s a b \<and> edits s \<le> edits s'"
proof (cases "length b < length a")
  case True
  then have le: "length b \<le> length a" by simp
  from other have o: "valid_script strict_eq Delete s' b a"
    by (simp add: valid_script_swap strict_eq_flip)
  from ses_search_minimal [of Delete Insert b a strict_eq s', OF _ _ _ le o] obtain s where
    s: "ses_search b a strict_eq Delete Insert = Some (Delete # s)"
       "valid_script strict_eq Delete s b a" "dels Delete s \<le> dels Delete s'"
    by auto
  from edits_dels [OF _ s(2)] edits_dels [OF _ o] s(3) have "edits s \<le> edits s'" by simp
  moreover from s(2) have "valid_script strict_eq Insert s a b"
    by (simp add: valid_script_swap strict_eq_flip)
  moreover have "diff a b None = Some s"
    using True s(1) by (simp add: diff_small [OF small])
  ultimately show ?thesis by blast
next
  case False
  then have le: "length a \<le> length b" by simp
  from ses_search_minimal [of Insert Delete a b strict_eq s', OF _ _ _ le other] obtain s where
    s: "ses_search a b strict_eq Insert Delete = Some (Insert # s)"
       "valid_script strict_eq Insert s a b" "dels Insert s \<le> dels Insert s'"
    by auto
  from edits_dels [OF _ s(2)] edits_dels [OF _ other] s(3) have "edits s \<le> edits s'" by simp
  moreover have "diff a b None = Some s"
    using False s(1) by (simp add: diff_small [OF small])
  ultimately show ?thesis using s(2) by blast
qed

lemma length_edits:
  assumes "ins \<noteq> Equal" "valid_script cmp ins s A B"
  shows "2 * length s = length A + length B + edits s"
proof -
  have "length s = length (filter (\<lambda>t. t = Equal) s) + edits s"
    unfolding edits_def by (induction s) auto
  moreover have "edits s = length (filter (\<lambda>t. t = ins) s) + dels ins s"
    using assms(1) by (induction s) (auto simp: edits_def dels_def)
  moreover have "length (filter (\<lambda>t. t = Equal \<or> t = ins) s)
      = length (filter (\<lambda>t. t = Equal) s) + length (filter (\<lambda>t. t = ins) s)"
    using assms(1) by (induction s) auto
  moreover have "length (filter (\<lambda>t. t = Equal \<or> t \<noteq> ins) s)
      = length (filter (\<lambda>t. t = Equal) s) + dels ins s"
    using assms(1) by (induction s) (auto simp: dels_def)
  ultimately show ?thesis using valid_script_counts [OF assms(2)] by simp
qed

text \<open>
  Applying a script token by token agrees with what the code does with it: compacting
  the script and applying the patch gives the same sequence.
\<close>

lemma apply_script_patch:
  "apply_script s a b = Some b \<Longrightarrow> applyChanges a (diffToChanges s b) = b"
  by (simp add: apply_script_valid roundtrip_valid_script)

section \<open>The claims\<close>

text \<open>
  C1. Round trip: for all sequences \<open>a\<close> and \<open>b\<close>, with the default comparator, \<open>diff\<close>
  returns, and applying the compacted patch list \<open>diffToChanges (diff a b) b\<close> to \<open>a\<close>
  with \<open>applyChanges\<close> yields \<open>b\<close>.
\<close>

theorem diff_roundtrip:
  "\<exists>stream. diff a b None = Some stream \<and> applyChanges a (diffToChanges stream b) = b"
  using diff_default_valid [of a b] roundtrip_valid_script by blast

text \<open>
  C2. When the timer fires with a keystroke pending, \<open>applyLocalChanges\<close> returns. It
  takes the snapshot \<open>of_string live\<close> of the live buffer, computes the patch
  \<open>getChanges (syncValue cl) (of_string live)\<close> from the shadow copy to the snapshot, and
  hands it to the step that applies it to a scratch copy of the shadow copy, verifies and
  commits. For this patch the patched scratch copy is the snapshot, element by element,
  so the patch is emitted on the socket and the scratch copy becomes the shadow copy.

  The step itself decides by its test, for whatever patch \<open>cs\<close> and snapshot \<open>out\<close> it is
  given: when the patched scratch copy and the snapshot join to the same string, the patch
  is emitted and the scratch copy becomes the shadow copy; otherwise nothing is emitted
  and the shadow copy is left as it was. In both cases the pending flag is cleared. A
  scratch copy that equals the snapshot passes the test.
\<close>

theorem applyLocalChanges_commit:
  assumes "keypressed cl"
  shows "(\<exists>changes. getChanges (syncValue cl) (of_string live) = Some changes
            \<and> applyLocalChanges doc live cl
                = Some (verifyThenCommit doc (of_string live) changes cl)
            \<and> applyChanges (syncValue cl) changes = of_string live
            \<and> applyLocalChanges doc live cl
                = Some (cl\<lparr>emitted := emitted cl @ [(doc, changes)],
                            syncValue := of_string live, keypressed := False\<rparr>))
    \<and> verifyThenCommit doc out cs cl
        = (if join out = join (applyChanges (syncValue cl) cs)
           then cl\<lparr>emitted := emitted cl @ [(doc, cs)],
                   syncValue := applyChanges (syncValue cl) cs, keypressed := False\<rparr>
           else cl\<lparr>keypressed := False\<rparr>)
    \<and> (applyChanges (syncValue cl) cs = out
         \<longrightarrow> verifyThenCommit doc out cs cl
             = cl\<lparr>emitted := emitted cl @ [(doc, cs)], syncValue := out,
                   keypressed := False\<rparr>)"
proof (intro conjI impI)
  from diff_default_valid [of "syncValue cl" "of_string live"] obtain stream where
    s: "diff (syncValue cl) (of_string live) None = Some stream"
       "valid_script strict_eq Insert stream (syncValue cl) (of_string live)" by blast
  define changes where "changes = diffToChanges stream (of_string live)"
  have g: "getChanges (syncValue cl) (of_string live) = Some changes"
    using s(1) by (simp add: getChanges_def changes_def)
  have r: "applyChanges (syncValue cl) changes = of_string live"
    using roundtrip_valid_script [OF s(2)] by (simp add: changes_def)
  have a: "applyLocalChanges doc live cl
      = Some (verifyThenCommit doc (of_string live) changes cl)"
    using assms g by (simp add: applyLocalChanges_def Let_def)
  have v: "verifyThenCommit doc (of_string live) changes cl
      = cl\<lparr>emitted := emitted cl @ [(doc, changes)], syncValue := of_string live,
            keypressed := False\<rparr>"
    using r by (simp add: verifyThenCommit_def Let_def)
  from g a r v
  show "\<exists>changes. getChanges (syncValue cl) (of_string live) = Some changes
            \<and> applyLocalChanges doc live cl
                = Some (verifyThenCommit doc (of_string live) changes cl)
            \<and> applyChanges (syncValue cl) changes = of_string live
            \<and> applyLocalChanges doc live cl
                = Some (cl\<lparr>emitted := emitted cl @ [(doc, changes)],
                            syncValue := of_string live, keypressed := False\<rparr>)"
    by simp
next
  show "verifyThenCommit doc out cs cl
        = (if join out = join (applyChanges (syncValue cl) cs)
           then cl\<lparr>emitted := emitted cl @ [(doc, cs)],
                   syncValue := applyChanges (syncValue cl) cs, keypressed := False\<rparr>
           else cl\<lparr>keypressed := False\<rparr>)"
    by (simp add: verifyThenCommit_def Let_def)
next
  assume "applyChanges (syncValue cl) cs = out"
  then show "verifyThenCommit doc out cs cl
      = cl\<lparr>emitted := emitted cl @ [(doc, cs)], syncValue := out, keypressed := False\<rparr>"
    by (simp add: verifyThenCommit_def Let_def)
qed

text \<open>
  An instance with both outcomes: the shadow copy is \<^verbatim>\<open>"ab"\<close> and the live buffer
  \<^verbatim>\<open>"abc"\<close>. The function emits its own patch, the insertion of \<^verbatim>\<open>"c"\<close> at index 2, and
  installs \<^verbatim>\<open>"abc"\<close>; so does the step, given that patch, whose scratch copy is the
  snapshot. The step, given the empty patch instead, finds \<^verbatim>\<open>"ab"\<close> against \<^verbatim>\<open>"abc"\<close>,
  emits nothing and keeps the shadow copy \<^verbatim>\<open>"ab"\<close>.
\<close>

theorem applyLocalChanges_commit_witness:
  "keypressed \<lparr>syncValue = of_string ''ab'', keypressed = True, emitted = []\<rparr>
   \<and> applyLocalChanges ''doc'' ''abc''
        \<lparr>syncValue = of_string ''ab'', keypressed = True, emitted = []\<rparr>
     = Some \<lparr>syncValue = of_string ''abc'', keypressed = False,
             emitted = [(''doc'', [InsertChange 2 [Elem CHR ''c'']])]\<rparr>
   \<and> applyChanges (of_string ''ab'') [InsertChange 2 [Elem CHR ''c'']] = of_string ''abc''
   \<and> verifyThenCommit ''doc'' (of_string ''abc'') [InsertChange 2 [Elem CHR ''c'']]
        \<lparr>syncValue = of_string ''ab'', keypressed = True, emitted = []\<rparr>
     = \<lparr>syncValue = of_string ''abc'', keypressed = False,
        emitted = [(''doc'', [InsertChange 2 [Elem CHR ''c'']])]\<rparr>
   \<and> join (of_string ''abc'') \<noteq> join (applyChanges (of_string ''ab'') [])
   \<and> verifyThenCommit ''doc'' (of_string ''abc'') []
        \<lparr>syncValue = of_string ''ab'', keypressed = True, emitted = []\<rparr>
     = \<lparr>syncValue = of_string ''ab'', keypressed = False, emitted = []\<rparr>"
proof -
  have g: "getChanges (of_string ''ab'') (of_string ''abc'') = Some [InsertChange 2 [Elem CHR ''c'']]"
    by code_simp
  have r: "applyChanges (of_string ''ab'') [InsertChange 2 [Elem CHR ''c'']] = of_string ''abc''"
    by code_simp
  have j: "join (of_string ''abc'') \<noteq> join (applyChanges (of_string ''ab'') [])"
    by (simp add: join_def of_string_def applyChanges_def)
  from applyLocalChanges_commit
    [of "\<lparr>syncValue = of_string ''ab'', keypressed = True, emitted = []\<rparr>" "''abc''" "''doc''"
        "of_string ''abc''" "[]"]
    g j
  have discard: "applyLocalChanges ''doc'' ''abc''
        \<lparr>syncValue = of_string ''ab'', keypressed = True, emitted = []\<rparr>
     = Some \<lparr>syncValue = of_string ''abc'', keypressed = False,
             emitted = [(''doc'', [InsertChange 2 [Elem CHR ''c'']])]\<rparr>
   \<and> verifyThenCommit ''doc'' (of_string ''abc'') []
        \<lparr>syncValue = of_string ''ab'', keypressed = True, emitted = []\<rparr>
     = \<lparr>syncValue = of_string ''ab'', keypressed = False, emitted = []\<rparr>"
    by auto
  from applyLocalChanges_commit
    [of "\<lparr>syncValue = of_string ''ab'', keypressed = True, emitted = []\<rparr>" "''abc''" "''doc''"
        "of_string ''abc''" "[InsertChange 2 [Elem CHR ''c'']]"]
    r
  have commit: "verifyThenCommit ''doc'' (of_string ''abc'') [InsertChange 2 [Elem CHR ''c'']]
        \<lparr>syncValue = of_string ''ab'', keypressed = True, emitted = []\<rparr>
     = \<lparr>syncValue = of_string ''abc'', keypressed = False,
        emitted = [(''doc'', [InsertChange 2 [Elem CHR ''c'']])]\<rparr>"
    by auto
  from discard commit r j show ?thesis by simp
qed

text \<open>
  C3. The dispatcher: for all sequences and every comparator (a missing comparator
  stands for strict equality), \<open>diff\<close> returns the atomic stream of the boundary engine
  exactly when one length exceeds 200 or the lengths sum to more than 300. For every
  smaller input the edit-script search returns a script that starts with the sentinel
  token (\<^verbatim>\<open>_insert\<close>: \<open>Insert\<close>, or \<open>Delete\<close> after the swap), \<open>diff\<close> returns that
  script without its first token, and what remains is by itself an edit script between
  the two (possibly swapped) sequences.
\<close>

theorem diff_dispatch:
  "diff a b None = diff a b (Some strict_eq)
   \<and> (if length a > 200 \<or> length b > 200 \<or> length a + length b > 300
   then \<exists>stream. fastDiff a b cmp True = Inl stream \<and> diff a b (Some cmp) = Some stream
   else if length b < length a
   then \<exists>rest. ses_search b a cmp Delete Insert = Some (Delete # rest)
          \<and> diff a b (Some cmp) = Some rest \<and> valid_script cmp Delete rest b a
   else \<exists>rest. ses_search a b cmp Insert Delete = Some (Insert # rest)
          \<and> diff a b (Some cmp) = Some rest \<and> valid_script cmp Insert rest a b)"
proof (rule conjI)
  show "diff a b None = diff a b (Some strict_eq)" by (simp add: diff_def)
next
  show "if length a > 200 \<or> length b > 200 \<or> length a + length b > 300
   then \<exists>stream. fastDiff a b cmp True = Inl stream \<and> diff a b (Some cmp) = Some stream
   else if length b < length a
   then \<exists>rest. ses_search b a cmp Delete Insert = Some (Delete # rest)
          \<and> diff a b (Some cmp) = Some rest \<and> valid_script cmp Delete rest b a
   else \<exists>rest. ses_search a b cmp Insert Delete = Some (Insert # rest)
          \<and> diff a b (Some cmp) = Some rest \<and> valid_script cmp Insert rest a b"
  proof (cases "big a b")
  case True
  with diff_big [OF True, of "Some cmp"] show ?thesis
    by (simp add: big_def fastDiff_def Let_def)
next
  case False
  show ?thesis
  proof (cases "length b < length a")
    case True
    then have "length b \<le> length a" by simp
    from ses_search_correct [of Delete Insert b a cmp, OF _ _ _ this] obtain s where
      "ses_search b a cmp Delete Insert = Some (Delete # s)" "valid_script cmp Delete s b a"
      by auto
    with True False diff_small [OF False, of "Some cmp"] show ?thesis
      by (simp add: big_def)
  next
    case le: False
    then have "length a \<le> length b" by simp
    from ses_search_correct [of Insert Delete a b cmp, OF _ _ _ this] obtain s where
      "ses_search a b cmp Insert Delete = Some (Insert # s)" "valid_script cmp Insert s a b"
      by auto
    with le False diff_small [OF False, of "Some cmp"] show ?thesis
      by (simp add: big_def)
  qed
qed
qed

text \<open>
  C4. For \<^verbatim>\<open>"abcabba"\<close> and \<^verbatim>\<open>"cbabac"\<close> the stream returned by \<open>diff\<close> holds exactly 5
  tokens other than \<open>equal\<close>. In general, for inputs below the dispatch thresholds,
  \<open>diff\<close> returns a script that, applied token by token to \<open>a\<close>, yields \<open>b\<close>, and no
  script that does so has fewer insert and delete tokens, or fewer tokens in all.
\<close>

theorem shortest_edit_script:
  "map_option edits (diff (of_string ''abcabba'') (of_string ''cbabac'') None) = Some 5
   \<and> (length a \<le> 200 \<and> length b \<le> 200 \<and> length a + length b \<le> 300 \<longrightarrow>
        (\<exists>stream. diff a b None = Some stream \<and> apply_script stream a b = Some b
           \<and> (\<forall>s'. apply_script s' a b = Some b
                 \<longrightarrow> edits stream \<le> edits s' \<and> length stream \<le> length s')))"
proof (intro conjI impI)
  show "map_option edits (diff (of_string ''abcabba'') (of_string ''cbabac'') None) = Some 5"
    by code_simp
next
  assume "length a \<le> 200 \<and> length b \<le> 200 \<and> length a + length b \<le> 300"
  then have small: "\<not> big a b" by (auto simp: big_def)
  from diff_default_valid [of a b] obtain stream where
    s: "diff a b None = Some stream" "valid_script strict_eq Insert stream a b" by blast
  have "edits stream \<le> edits s' \<and> length stream \<le> length s'"
    if "apply_script s' a b = Some b" for s'
  proof -
    from that have o: "valid_script strict_eq Insert s' a b" by (simp add: apply_script_valid)
    from diff_small_minimal [OF small o] s(1) have e: "edits stream \<le> edits s'" by auto
    from length_edits [OF _ s(2)] length_edits [OF _ o] e show ?thesis by simp
  qed
  with s show "\<exists>stream. diff a b None = Some stream \<and> apply_script stream a b = Some b
           \<and> (\<forall>s'. apply_script s' a b = Some b
                 \<longrightarrow> edits stream \<le> edits s' \<and> length stream \<le> length s')"
    by (auto simp: apply_script_valid)
qed

theorem shortest_edit_script_witness:
  "length (of_string ''ab'') \<le> 200 \<and> length (of_string ''b'') \<le> 200
   \<and> length (of_string ''ab'') + length (of_string ''b'') \<le> 300
   \<and> apply_script [Delete, Delete, Insert] (of_string ''ab'') (of_string ''b'') = Some (of_string ''b'')
   \<and> diff (of_string ''ab'') (of_string ''b'') None = Some [Delete, Equal]
   \<and> edits [Delete, Equal] \<le> edits [Delete, Delete, Insert]"
proof -
  have d: "diff (of_string ''ab'') (of_string ''b'') None = Some [Delete, Equal]"
    by code_simp
  have o: "apply_script [Delete, Delete, Insert] (of_string ''ab'') (of_string ''b'')
      = Some (of_string ''b'')"
    by (simp add: of_string_def)
  have l: "length (of_string ''ab'') \<le> 200 \<and> length (of_string ''b'') \<le> 200
      \<and> length (of_string ''ab'') + length (of_string ''b'') \<le> 300"
    by (simp add: of_string_def)
  from shortest_edit_script [of "of_string ''ab''" "of_string ''b''"] l d o
  have "edits [Delete, Equal] \<le> edits [Delete, Delete, Insert]" by auto
  with l d o show ?thesis by simp
qed

text \<open>
  C5 (as stated). The claim says that the stream
  \<open>[equal, insert, insert, equal, delete, delete, equal]\<close> over \<^verbatim>\<open>"xYZw"\<close> compacts to
  \<open>Insert{index: 1, values: [Y, Z]}\<close> and \<open>Delete{index: 3, howMany: 2}\<close>. The code
  does not produce that list: the second \<open>equal\<close> advances the index once more before
  the delete run starts.
\<close>

theorem compactor_example_counterexample:
  "diffToChanges [Equal, Insert, Insert, Equal, Delete, Delete, Equal] (of_string ''xYZw'')
   \<noteq> [InsertChange 1 [Elem CHR ''Y'', Elem CHR ''Z''], DeleteChange 3 2]"
  by (simp add: diffToChanges_def of_string_def js_nth_def)

text \<open>
  C5 (amended). The stream \<open>[equal, insert, insert, equal, delete, delete, equal]\<close> over
  \<^verbatim>\<open>"xYZw"\<close> compacts to exactly one insert operation with index 1 and values \<open>[Y, Z]\<close>
  and one delete operation with index 4 and \<open>howMany\<close> 2: the delete index is the index
  into the new sequence reached when the delete run starts, after the two equal tokens
  and the two inserted elements before it.
\<close>

theorem compactor_example:
  "diffToChanges [Equal, Insert, Insert, Equal, Delete, Delete, Equal] (of_string ''xYZw'')
   = [InsertChange 1 [Elem CHR ''Y'', Elem CHR ''Z''], DeleteChange 4 2]"
  by (simp add: diffToChanges_def of_string_def js_nth_def)

text \<open>
  C6. The claim: for every sequence \<open>A\<close>, whichever engine the dispatcher selects,
  \<open>diff A A\<close> is the stream of \<open>length A\<close> \<open>equal\<close> markers and compacts to the empty
  patch list. The boundary engine departs from it on a sequence that holds
  \<^verbatim>\<open>undefined\<close>. For the sequence of 150 characters followed by \<^verbatim>\<open>undefined\<close> (151
  elements, so the dispatcher selects the boundary engine) the scan
  \<open>findFirstDifferenceIndex\<close>, documented to return \<open>- 1\<close> when there are no
  differences, returns 150 on the sequence against itself; \<open>diff\<close> returns 150 \<open>equal\<close>
  markers followed by an \<open>insert\<close> and a \<open>delete\<close>, and the patch list replaces the last
  element. For the sequence of 149 characters followed by \<^verbatim>\<open>undefined\<close> (150 elements,
  so the dispatcher selects the edit-script engine) \<open>diff\<close> returns the 150 \<open>equal\<close>
  markers and the patch list is empty.
\<close>

theorem diff_identical_undefined:
  "findFirstDifferenceIndex (replicate 150 (Elem CHR ''a'') @ [Undefined])
       (replicate 150 (Elem CHR ''a'') @ [Undefined]) strict_eq = 150
   \<and> diff (replicate 150 (Elem CHR ''a'') @ [Undefined])
        (replicate 150 (Elem CHR ''a'') @ [Undefined]) None
     = Some (replicate 150 Equal @ [Insert, Delete])
   \<and> getChanges (replicate 150 (Elem CHR ''a'') @ [Undefined])
        (replicate 150 (Elem CHR ''a'') @ [Undefined])
     = Some [InsertChange 150 [Undefined], DeleteChange 151 1]
   \<and> diff (replicate 149 (Elem CHR ''a'') @ [Undefined])
        (replicate 149 (Elem CHR ''a'') @ [Undefined]) None
     = Some (replicate 150 Equal)
   \<and> getChanges (replicate 149 (Elem CHR ''a'') @ [Undefined])
        (replicate 149 (Elem CHR ''a'') @ [Undefined])
     = Some []"
  by code_simp

text \<open>
  C7 (as stated). The claim says that the stream returned by \<open>diff a b\<close> has length
  \<open>length b\<close> when the inputs differ, and is the uniform \<open>equal\<close> stream of that length
  when they are identical. Every \<open>delete\<close> token adds to the length: for \<^verbatim>\<open>"a"\<close> against
  the empty string the stream is one \<open>delete\<close>. The one-element sequence that holds
  \<^verbatim>\<open>NaN\<close>, against itself, gives an \<open>insert\<close> and a \<open>delete\<close>, since strict equality
  rejects \<^verbatim>\<open>NaN\<close> against itself. The sequence of \<^verbatim>\<open>undefined\<close> followed by 150
  characters, against itself, gives an \<open>insert\<close> and a \<open>delete\<close> before its 150 \<open>equal\<close>
  markers: the boundary engine counts an \<^verbatim>\<open>undefined\<close> element as a difference.
\<close>

theorem stream_length_counterexample:
  "of_string ''a'' \<noteq> of_string []
   \<and> map_option length (diff (of_string ''a'') (of_string []) None)
     \<noteq> Some (length (of_string []))
   \<and> diff [NaN :: char elem] [NaN] None \<noteq> Some (replicate (length [NaN :: char elem]) Equal)
   \<and> diff (Undefined # replicate 150 (Elem CHR ''a'')) (Undefined # replicate 150 (Elem CHR ''a''))
        None
     \<noteq> Some (replicate (length (Undefined # replicate 150 (Elem CHR ''a''))) Equal)"
  by code_simp

text \<open>
  C7 (amended). For every pair of sequences \<open>a\<close>, \<open>b\<close>, \<open>diff a b\<close> returns, and the
  stream holds exactly \<open>length b\<close> tokens other than \<open>delete\<close> and exactly \<open>length a\<close>
  tokens other than \<open>insert\<close>, so that its length is \<open>length b\<close> plus the number of its
  \<open>delete\<close> tokens. When the two inputs are identical, no element is \<^verbatim>\<open>NaN\<close>, and
  either no element is \<^verbatim>\<open>undefined\<close> or there are at most 150 elements, it is the
  uniform \<open>equal\<close> stream of length \<open>length b\<close>.
\<close>

theorem stream_length:
  "\<exists>stream. diff a b None = Some stream
     \<and> length (filter (\<lambda>t. t \<noteq> Delete) stream) = length b
     \<and> length (filter (\<lambda>t. t \<noteq> Insert) stream) = length a
     \<and> length stream = length b + length (filter (\<lambda>t. t = Delete) stream)
     \<and> (a = b \<and> NaN \<notin> set a \<and> (Undefined \<notin> set a \<or> length a \<le> 150)
          \<longrightarrow> stream = replicate (length b) Equal)"
proof -
  from diff_default_valid [of a b] obtain stream where
    s: "diff a b None = Some stream" "valid_script strict_eq Insert stream a b" by blast
  from valid_script_counts [OF s(2)]
  have c: "length (filter (\<lambda>t. t = Equal \<or> t = Insert) stream) = length b"
    "length (filter (\<lambda>t. t = Equal \<or> t \<noteq> Insert) stream) = length a" by simp_all
  have "(\<lambda>t. t = Equal \<or> t = Insert) = (\<lambda>t. t \<noteq> Delete)"
    "(\<lambda>t. t = Equal \<or> t \<noteq> Insert) = (\<lambda>t. t \<noteq> Insert)"
    by (auto simp: fun_eq_iff intro: atom.exhaust)
  with c have c': "length (filter (\<lambda>t. t \<noteq> Delete) stream) = length b"
    "length (filter (\<lambda>t. t \<noteq> Insert) stream) = length a" by simp_all
  have "length stream
      = length (filter (\<lambda>t. t \<noteq> Delete) stream) + length (filter (\<lambda>t. t = Delete) stream)"
    by (induction stream) simp_all
  with c'(1) have l: "length stream = length b + length (filter (\<lambda>t. t = Delete) stream)"
    by simp
  have "stream = replicate (length b) Equal"
    if "a = b" "NaN \<notin> set a" "Undefined \<notin> set a \<or> length a \<le> 150"
  proof (cases "big a a")
    case True
    then have "\<not> length a \<le> 150" by (auto simp: big_def)
    with that(3) have "Undefined \<notin> set a" by simp
    with True that(1,2) s(1) diff_identical_big [of a] show ?thesis by simp
  next
    case False
    with that(1,2) s(1) diff_identical_small [of a] show ?thesis by simp
  qed
  with s(1) c' l show ?thesis by blast
qed

theorem stream_length_witness:
  "of_string ''ab'' = of_string ''ab'' \<and> NaN \<notin> set (of_string ''ab'')
   \<and> Undefined \<notin> set (of_string ''ab'')
   \<and> diff (of_string ''ab'') (of_string ''ab'') None = Some [Equal, Equal]"
  using stream_length [of "of_string ''ab''" "of_string ''ab''"]
  by (auto simp: of_string_def numeral_2_eq_2)

text \<open>
  C8. For \<^verbatim>\<open>"hello world"\<close> and \<^verbatim>\<open>"hello there world"\<close> the boundary engine reports
  \<open>firstIndex = 6\<close>, and in compacted mode its patch list is the single insert of the six
  characters \<^verbatim>\<open>"there "\<close> at index 6, with no delete operation.
\<close>

theorem boundary_example:
  "firstIndex (findChangeBoundaryIndexes (of_string ''hello world'')
      (of_string ''hello there world'') strict_eq) = 6
   \<and> fastDiff (of_string ''hello world'') (of_string ''hello there world'') strict_eq False
     = Inr [InsertChange 6 (of_string ''there '')]"
  by code_simp

text \<open>
  C9. In the spec's vocabulary a position "compares equal" when the scan passes it, that
  is when neither element is \<^verbatim>\<open>undefined\<close> and the comparator accepts the pair (the
  negation of \<open>differs\<close>, the test of the loop). If either sequence holds \<^verbatim>\<open>undefined\<close>
  at position \<open>i\<close> and all earlier positions compare equal, \<open>findFirstDifferenceIndex\<close>
  returns \<open>i\<close>; nothing is assumed of the comparator at position \<open>i\<close>, so its answer
  there plays no part. Consequently, for a sequence \<open>A\<close> whose first \<^verbatim>\<open>undefined\<close>
  element is at position \<open>i\<close>, \<open>fastDiff A A cmp True\<close> opens a change region at \<open>i\<close>
  (\<open>firstIndex = i\<close>, \<open>i\<close> leading \<open>equal\<close> tokens, then an \<open>insert\<close>) and is not the
  uniform \<open>equal\<close> stream, although the two inputs are identical.
\<close>

theorem undefined_counts_as_difference:
  "(((i < length arr1 \<and> arr1 ! i = Undefined) \<or> (i < length arr2 \<and> arr2 ! i = Undefined))
      \<and> (\<forall>j<i. \<not> differs cmp (js_nth arr1 (int j)) (js_nth arr2 (int j)))
    \<longrightarrow> findFirstDifferenceIndex arr1 arr2 cmp = int i)
   \<and> (i < length A \<and> A ! i = Undefined \<and> (\<forall>j<i. \<not> differs cmp (js_nth A (int j)) (js_nth A (int j)))
    \<longrightarrow> (\<exists>stream. fastDiff A A cmp True = Inl stream
          \<and> firstIndex (findChangeBoundaryIndexes A A cmp) = int i
          \<and> take i stream = replicate i Equal \<and> stream ! i = Insert
          \<and> stream \<noteq> replicate (length A) Equal))"
proof (intro conjI impI)
  assume h: "((i < length arr1 \<and> arr1 ! i = Undefined) \<or> (i < length arr2 \<and> arr2 ! i = Undefined))
      \<and> (\<forall>j<i. \<not> differs cmp (js_nth arr1 (int j)) (js_nth arr2 (int j)))"
  then have d: "differs cmp (js_nth arr1 (int i)) (js_nth arr2 (int i))"
    and lt: "i < max (length arr1) (length arr2)"
    by (auto simp: differs_def js_nth_nat)
  from ffdi_loop_cases [of arr1 arr2 cmp 0] show "findFirstDifferenceIndex arr1 arr2 cmp = int i"
  proof (elim disjE conjE exE)
    assume "\<forall>j. 0 \<le> j \<and> j < max (length arr1) (length arr2)
        \<longrightarrow> \<not> differs cmp (js_nth arr1 (int j)) (js_nth arr2 (int j))"
    with d lt show ?thesis by blast
  next
    fix r
    assume r: "ffdi_loop arr1 arr2 cmp 0 = int r"
      "differs cmp (js_nth arr1 (int r)) (js_nth arr2 (int r))"
      "\<forall>j. 0 \<le> j \<and> j < r \<longrightarrow> \<not> differs cmp (js_nth arr1 (int j)) (js_nth arr2 (int j))"
    from r(3) d have "\<not> i < r" by blast
    moreover from r(2) h have "\<not> r < i" by blast
    ultimately have "r = i" by simp
    with r(1) show ?thesis by (simp add: findFirstDifferenceIndex_def)
  qed
next
  assume h: "i < length A \<and> A ! i = Undefined
    \<and> (\<forall>j<i. \<not> differs cmp (js_nth A (int j)) (js_nth A (int j)))"
  from boundary_cases [of A A cmp]
  obtain r q where rq: "findChangeBoundaryIndexes A A cmp =
          \<lparr>firstIndex = int r, lastIndexOld = int (length A) - int q,
           lastIndexNew = int (length A) - int q\<rparr>"
      "r + q \<le> length A" "q < max (length A) (length A) - r"
      "differs cmp (js_nth A (int r)) (js_nth A (int r))"
      "\<forall>j < r. A ! j \<noteq> Undefined \<and> A ! j \<noteq> Undefined \<and> cmp (A ! j) (A ! j)"
    using h by blast
  from rq(5) h have "\<not> i < r" by blast
  moreover from rq(4) h have "\<not> r < i" by blast
  ultimately have ri: "r = i" by simp
  let ?stream = "replicate r Equal @ replicate (length A - q - r) Insert
      @ replicate (length A - q - r) Delete @ replicate q Equal"
  have shape: "changeIndexesToAtomicChanges (findChangeBoundaryIndexes A A cmp) (length A) = ?stream"
    using atomic_stream_shape [OF rq(2) rq(2)] rq(1) by simp
  have pos: "0 < length A - q - r" using rq(3) by simp
  then obtain d where d: "length A - q - r = Suc d" by (cases "length A - q - r") auto
  have 1: "take i ?stream = replicate i Equal" using ri by simp
  have 2: "?stream ! i = Insert" using ri d by (simp add: nth_append)
  have 3: "?stream \<noteq> replicate (length A) Equal"
  proof
    assume "?stream = replicate (length A) Equal"
    then have "?stream ! i = replicate (length A) Equal ! i" by simp
    with 2 h show False by simp
  qed
  show "\<exists>stream. fastDiff A A cmp True = Inl stream
          \<and> firstIndex (findChangeBoundaryIndexes A A cmp) = int i
          \<and> take i stream = replicate i Equal \<and> stream ! i = Insert
          \<and> stream \<noteq> replicate (length A) Equal"
    using 1 2 3 shape rq(1) ri by (simp add: fastDiff_def Let_def)
qed

theorem undefined_counts_as_difference_witness:
  "[Elem CHR ''a'', Undefined] ! 1 = Undefined
   \<and> \<not> differs strict_eq (js_nth [Elem CHR ''a'', Undefined] 0)
         (js_nth [Elem CHR ''a'', Elem CHR ''b''] 0)
   \<and> findFirstDifferenceIndex [Elem CHR ''a'', Undefined] [Elem CHR ''a'', Elem CHR ''b''] strict_eq = 1
   \<and> fastDiff [Elem CHR ''a'', Undefined] [Elem CHR ''a'', Undefined] strict_eq True
       = Inl [Equal, Insert, Delete]"
proof -
  have h1: "((1 < length [Elem CHR ''a'', Undefined] \<and> [Elem CHR ''a'', Undefined] ! 1 = Undefined)
      \<or> (1 < length [Elem CHR ''a'', Elem CHR ''b''] \<and> [Elem CHR ''a'', Elem CHR ''b''] ! 1 = Undefined))
   \<and> (\<forall>j<1. \<not> differs strict_eq (js_nth [Elem CHR ''a'', Undefined] (int j))
                 (js_nth [Elem CHR ''a'', Elem CHR ''b''] (int j)))"
    by (simp add: differs_def js_nth_def strict_eq_def)
  have h2: "1 < length [Elem CHR ''a'', Undefined] \<and> [Elem CHR ''a'', Undefined] ! 1 = Undefined
    \<and> (\<forall>j<1. \<not> differs strict_eq (js_nth [Elem CHR ''a'', Undefined] (int j))
                 (js_nth [Elem CHR ''a'', Undefined] (int j)))"
    by (simp add: differs_def js_nth_def strict_eq_def)
  have e: "fastDiff [Elem CHR ''a'', Undefined] [Elem CHR ''a'', Undefined] strict_eq True
       = Inl [Equal, Insert, Delete]"
    by code_simp
  from undefined_counts_as_difference [of 1 "[Elem CHR ''a'', Undefined]"
      "[Elem CHR ''a'', Elem CHR ''b'']" strict_eq "[Elem CHR ''a'', Undefined]"] h1 h2 e
  show ?thesis by (simp add: differs_def js_nth_def strict_eq_def)
qed

text \<open>
  C10. The claim: every operation of a patch list produced by \<open>diffToChanges\<close> or by
  the compacted mode of \<open>fastDiff\<close> is non-trivial (an insert has a non-empty list of
  values, a delete has \<open>howMany\<close> at least 1), and in particular identical inputs
  produce the empty patch list. The first part holds for every stream, new sequence,
  pair of inputs and comparator, and an all-equal stream compacts to the empty list. The
  compacted mode of \<open>fastDiff\<close> departs from the last part on identical inputs that hold
  \<^verbatim>\<open>undefined\<close>: for the one-element sequence \<open>[Undefined]\<close> against itself the scan
  \<open>findFirstDifferenceIndex\<close>, documented to return \<open>- 1\<close> when there are no
  differences, returns 0, and the patch list is an insert of \<^verbatim>\<open>undefined\<close> at index 0
  and a delete of one element at index 1. The edit-script engine with the compactor
  (\<open>getChanges\<close>) gives the empty patch list for the same inputs.
\<close>

theorem nontrivial_patches:
  "list_all nontrivial (diffToChanges stream out)
   \<and> (case fastDiff a b cmp False of Inl _ \<Rightarrow> False | Inr changes \<Rightarrow> list_all nontrivial changes)
   \<and> diffToChanges (replicate n Equal) out = []
   \<and> findFirstDifferenceIndex [Undefined :: char elem] [Undefined] strict_eq = 0
   \<and> fastDiff [Undefined :: char elem] [Undefined] strict_eq False
     = Inr [InsertChange 0 [Undefined], DeleteChange 1 1]
   \<and> getChanges [Undefined :: char elem] [Undefined] = Some []"
proof (intro conjI)
  show "list_all nontrivial (diffToChanges stream out)"
    by (rule diffToChanges_nontrivial)
  show "case fastDiff a b cmp False of Inl _ \<Rightarrow> False | Inr changes \<Rightarrow> list_all nontrivial changes"
    using changeIndexesToChanges_nontrivial [of b a cmp] by (simp add: fastDiff_def Let_def)
  show "diffToChanges (replicate n Equal) out = []"
    by (rule diffToChanges_equal_run)
  show "findFirstDifferenceIndex [Undefined :: char elem] [Undefined] strict_eq = 0"
    by code_simp
  show "fastDiff [Undefined :: char elem] [Undefined] strict_eq False
     = Inr [InsertChange 0 [Undefined], DeleteChange 1 1]"
    by code_simp
  show "getChanges [Undefined :: char elem] [Undefined] = Some []"
    by code_simp
qed

end
